theory Spec2Isabelle
  imports Main "HOL-Library.Word"
begin

unbundle bit_operations_syntax

section \<open>Memory faults and integer conversions\<close>

text \<open>
  The C++ sources never raise. What they can do is access memory outside an object:
  the telegram buffer, one of the fixed arrays of the reading, or a character field.
  Each such access is a branch of the model that ends in a \<open>fault\<close>; a function that
  can reach one returns \<open>fault + 'a\<close>, with \<open>Inl\<close> for the fault.
\<close>

datatype fault =
    BufferBounds        \<comment> \<open>access outside the telegram buffer\<close>
  | FieldBounds         \<comment> \<open>write past the end of a character field\<close>
  | LogBounds nat       \<comment> \<open>\<open>PowerFailureLogs[i]\<close> with \<open>i\<close> outside the array\<close>
  | DeviceBounds int    \<comment> \<open>\<open>MBusDevices[i]\<close> with \<open>i\<close> outside the array\<close>

definition bnd :: "fault + 'a \<Rightarrow> ('a \<Rightarrow> fault + 'b) \<Rightarrow> fault + 'b" where
  "bnd m f = (case m of Inl e \<Rightarrow> Inl e | Inr x \<Rightarrow> f x)"

lemma bnd_Inl [simp]: "bnd (Inl e) f = Inl e"
  by (simp add: bnd_def)

lemma bnd_Inr [simp]: "bnd (Inr x) f = f x"
  by (simp add: bnd_def)

lemma bnd_cong [fundef_cong]:
  "m = m' \<Longrightarrow> (\<And>x. m' = Inr x \<Longrightarrow> f x = f' x) \<Longrightarrow> bnd m f = bnd m' f'"
  by (cases m') (simp_all add: bnd_def)

lemma bnd_eq_Inr: "bnd m f = Inr y \<longleftrightarrow> (\<exists>x. m = Inr x \<and> f x = Inr y)"
  by (cases m) simp_all

abbreviation NUL :: char where "NUL \<equiv> CHR 0x00"
abbreviation CR :: char where "CR \<equiv> CHR 0x0D"
abbreviation LF :: char where "LF \<equiv> CHR 0x0A"

text \<open>Conversion of an integer value to \<open>uint16_t\<close> and to \<open>int16_t\<close>.\<close>

definition u16 :: "int \<Rightarrow> int" where
  "u16 x = x mod 65536"

definition i16 :: "int \<Rightarrow> int" where
  "i16 x = (x + 32768) mod 65536 - 32768"

section \<open>CRC16.h\<close>

definition POLYNOMIAL_IBM_REVERSED :: "16 word" where
  "POLYNOMIAL_IBM_REVERSED = 0xA001"

text \<open>
  \<open>(uint16_t)buf[pos]\<close> with \<open>buf\<close> a \<open>char *\<close>. Whether plain \<open>char\<close> is signed is
  fixed by the target: it is on AVR boards, it is not on the ESP and ARM ones. The flag
  \<open>sc\<close> says that it is signed; then a byte of 128 or more is a negative \<open>char\<close> and
  the conversion sign-extends it.
\<close>

definition widen_char :: "bool \<Rightarrow> char \<Rightarrow> 16 word" where
  "widen_char sc c =
     (if sc \<and> 128 \<le> (of_char c :: nat) then of_char c OR 0xFF00 else of_char c)"

text \<open>The body of the inner loop, and the loop \<open>for (int16_t i = 8; i != 0; i--)\<close>.\<close>

definition crc_shift :: "16 word \<Rightarrow> 16 word" where
  "crc_shift crc =
     (if crc AND 0x0001 \<noteq> 0
      then drop_bit 1 crc XOR POLYNOMIAL_IBM_REVERSED
      else drop_bit 1 crc)"

fun crc_bits :: "nat \<Rightarrow> 16 word \<Rightarrow> 16 word" where
  "crc_bits 0 crc = crc"
| "crc_bits (Suc i) crc = crc_bits i (crc_shift crc)"

text \<open>The outer loop \<open>for (uint16_t pos = 0; pos < len; pos++)\<close>; \<open>buf\<close> is the object
  the pointer points into, and reading past its end is a fault.\<close>

function crc_loop :: "bool \<Rightarrow> char list \<Rightarrow> nat \<Rightarrow> nat \<Rightarrow> 16 word \<Rightarrow> fault + 16 word" where
  "crc_loop sc buf len pos crc =
     (if pos < len
      then (if pos < length buf
            then crc_loop sc buf len (pos + 1) (crc_bits 8 (crc XOR widen_char sc (buf ! pos)))
            else Inl BufferBounds)
      else Inr crc)"
  by pat_completeness auto
termination
  by (relation "measure (\<lambda>(sc, buf, len, pos, crc). len - pos)") auto

declare crc_loop.simps [simp del]

definition CRC16_IBM_REVERSED :: "bool \<Rightarrow> char list \<Rightarrow> nat \<Rightarrow> fault + 16 word" where
  "CRC16_IBM_REVERSED sc buf len = crc_loop sc buf len 0 0x00"

text \<open>
  The reference the specification describes, written from its words: initial value 0;
  for each byte, XOR it into the low byte of the running value (the high byte is kept),
  then eight times: if the low bit is set, shift right and XOR the polynomial 0xA001,
  else shift right only.
\<close>

definition spec_crc_step :: "16 word \<Rightarrow> 16 word" where
  "spec_crc_step x = (if bit x 0 then drop_bit 1 x XOR 0xA001 else drop_bit 1 x)"

definition spec_crc_byte :: "16 word \<Rightarrow> char \<Rightarrow> 16 word" where
  "spec_crc_byte crc c =
     (spec_crc_step ^^ 8) ((crc AND 0xFF00) OR ((crc XOR of_char c) AND 0x00FF))"

definition spec_crc16 :: "char list \<Rightarrow> 16 word" where
  "spec_crc16 bs = foldl spec_crc_byte 0 bs"

section \<open>The C library functions the parser calls\<close>

text \<open>
  The telegram buffer is one allocation of \<open>BUFFER_SIZE + 1\<close> bytes
  (\<open>realloc(buffer, BUFFER_SIZE + 1)\<close>), modelled as the list of its bytes. A pointer
  \<open>buffer + off\<close> is modelled by the bytes from offset \<open>off\<close> to the end of the
  allocation; the library functions below walk that list, and walking off its end is a
  fault.
\<close>

definition BUFFER_SIZE :: nat where
  "BUFFER_SIZE = 1024"

definition window :: "char list \<Rightarrow> char list" where
  "window b = take (BUFFER_SIZE + 1) b"

definition at_offset :: "char list \<Rightarrow> int \<Rightarrow> fault + char list" where
  "at_offset b off =
     (if 0 \<le> off \<and> off \<le> int BUFFER_SIZE
      then Inr (drop (nat off) (window b))
      else Inl BufferBounds)"

text \<open>\<open>strchr\<close>: offset of the first \<open>c\<close>, \<open>None\<close> (the null pointer) when the
  terminating NUL comes first. The terminator itself is found when \<open>c\<close> is NUL.
  \<open>k\<close> counts the bytes passed.\<close>

fun strchr_from :: "char list \<Rightarrow> char \<Rightarrow> nat \<Rightarrow> fault + nat option" where
  "strchr_from [] c k = Inl BufferBounds"
| "strchr_from (x # xs) c k =
     (if x = c then Inr (Some k)
      else if x = NUL then Inr None
      else strchr_from xs c (k + 1))"

definition strchr :: "char list \<Rightarrow> char \<Rightarrow> fault + nat option" where
  "strchr p c = strchr_from p c 0"

text \<open>\<open>strrchr\<close>: offset of the last \<open>c\<close> up to the terminating NUL; \<open>found\<close> is
  the last one passed.\<close>

fun strrchr_from :: "char list \<Rightarrow> char \<Rightarrow> nat \<Rightarrow> nat option \<Rightarrow> fault + nat option" where
  "strrchr_from [] c k found = Inl BufferBounds"
| "strrchr_from (x # xs) c k found =
     (if x = NUL then Inr (if c = NUL then Some k else found)
      else strrchr_from xs c (k + 1) (if x = c then Some k else found))"

definition strrchr :: "char list \<Rightarrow> char \<Rightarrow> fault + nat option" where
  "strrchr p c = strrchr_from p c 0 None"

text \<open>\<open>strncmp(p, findString, strlen(findString)) == 0\<close>, for a \<open>findString\<close>
  without NUL: the comparison stops at the first differing byte.\<close>

fun strncmp_eq :: "char list \<Rightarrow> char list \<Rightarrow> fault + bool" where
  "strncmp_eq p [] = Inr True"
| "strncmp_eq [] (f # fs) = Inl BufferBounds"
| "strncmp_eq (x # xs) (f # fs) = (if x = f then strncmp_eq xs fs else Inr False)"

text \<open>The \<open>n\<close> bytes that \<open>strncpy(dst, p, n)\<close> writes: the bytes of the string at
  \<open>p\<close>, and NULs from its terminator on.\<close>

fun strncpy_src :: "char list \<Rightarrow> nat \<Rightarrow> fault + char list" where
  "strncpy_src p 0 = Inr []"
| "strncpy_src [] (Suc n) = Inl BufferBounds"
| "strncpy_src (x # xs) (Suc n) =
     (if x = NUL then Inr (replicate (Suc n) NUL)
      else (case strncpy_src xs n of Inl f \<Rightarrow> Inl f | Inr ys \<Rightarrow> Inr (x # ys)))"

text \<open>Writing the bytes \<open>ys\<close> into the character array \<open>dst\<close> from index \<open>off\<close>.\<close>

definition store :: "char list \<Rightarrow> nat \<Rightarrow> char list \<Rightarrow> fault + char list" where
  "store dst off ys =
     (if off + length ys \<le> length dst
      then Inr (take off dst @ ys @ drop (off + length ys) dst)
      else Inl FieldBounds)"

text \<open>The string at \<open>p\<close>, up to its terminator (the assignment of a \<open>char *\<close> to an
  Arduino \<open>String\<close>).\<close>

fun c_string :: "char list \<Rightarrow> fault + string" where
  "c_string [] = Inl BufferBounds"
| "c_string (x # xs) =
     (if x = NUL then Inr []
      else (case c_string xs of Inl f \<Rightarrow> Inl f | Inr ys \<Rightarrow> Inr (x # ys)))"

text \<open>
  \<open>strtoul(p, NULL, base)\<close> as the C standard gives it, with a 32-bit \<open>unsigned long\<close>:
  white space is skipped, a sign is read, in base 16 a \<open>0x\<close> prefix is read, then the
  digits as long as they are digits of the base. The value is \<open>ULONG_MAX\<close> when it
  does not fit, else the number, negated when the sign was \<open>-\<close>. Without digits the
  value is 0.
\<close>

definition isspace :: "char \<Rightarrow> bool" where
  "isspace c \<longleftrightarrow> c \<in> set [CHR '' '', CHR 0x09, CHR 0x0A, CHR 0x0B, CHR 0x0C, CHR 0x0D]"

definition digit_of :: "char \<Rightarrow> int option" where
  "digit_of c =
     (let n = (of_char c :: int) in
      if 48 \<le> n \<and> n \<le> 57 then Some (n - 48)
      else if 97 \<le> n \<and> n \<le> 122 then Some (n - 87)
      else if 65 \<le> n \<and> n \<le> 90 then Some (n - 55)
      else None)"

fun skip_space :: "char list \<Rightarrow> fault + char list" where
  "skip_space [] = Inl BufferBounds"
| "skip_space (x # xs) = (if isspace x then skip_space xs else Inr (x # xs))"

fun read_digits :: "int \<Rightarrow> char list \<Rightarrow> int \<Rightarrow> fault + int" where
  "read_digits base [] acc = Inl BufferBounds"
| "read_digits base (x # xs) acc =
     (case digit_of x of
        None \<Rightarrow> Inr acc
      | Some v \<Rightarrow> if v < base then read_digits base xs (acc * base + v) else Inr acc)"

definition skip_sign :: "char list \<Rightarrow> bool \<times> char list" where
  "skip_sign p =
     (case p of
        x # xs \<Rightarrow> if x = CHR ''-'' then (True, xs)
                  else if x = CHR ''+'' then (False, xs)
                  else (False, p)
      | [] \<Rightarrow> (False, p))"

definition skip_prefix :: "int \<Rightarrow> char list \<Rightarrow> char list" where
  "skip_prefix base p =
     (case p of
        x # y # ys \<Rightarrow>
          if base = 16 \<and> x = CHR ''0'' \<and> (y = CHR ''x'' \<or> y = CHR ''X'') then ys else p
      | _ \<Rightarrow> p)"

definition strtoul :: "char list \<Rightarrow> int \<Rightarrow> fault + 32 word" where
  "strtoul p base =
     bnd (skip_space p) (\<lambda>q.
       let (neg, r) = skip_sign q in
       bnd (read_digits base (skip_prefix base r) 0) (\<lambda>acc.
         Inr (if 4294967295 < acc then 0xFFFFFFFF
              else if neg then - word_of_int acc
              else word_of_int acc)))"

text \<open>
  \<open>strtod(p, NULL)\<close>. Floating point is outside this model: the \<open>double\<close> is
  represented by the text that \<open>strtod\<close> converts at \<open>p\<close>, which is, after white
  space and a sign, the longest of the forms of the C standard: decimal digits with
  at most one decimal point and an exponent \<open>e\<close>, hexadecimal digits after \<open>0x\<close> with
  at most one point and an exponent \<open>p\<close>, \<open>inf\<close> or \<open>infinity\<close>, \<open>nan\<close> or
  \<open>nan(...)\<close>, the letters in either case. The text is empty when nothing is
  converted (the value is then 0).
\<close>

definition is_digit10 :: "char \<Rightarrow> bool" where
  "is_digit10 c \<longleftrightarrow> 48 \<le> (of_char c :: int) \<and> (of_char c :: int) \<le> 57"

definition is_digit16 :: "char \<Rightarrow> bool" where
  "is_digit16 c \<longleftrightarrow>
     is_digit10 c \<or> (97 \<le> (of_char c :: int) \<and> (of_char c :: int) \<le> 102) \<or>
     (65 \<le> (of_char c :: int) \<and> (of_char c :: int) \<le> 70)"

definition is_nchar :: "char \<Rightarrow> bool" where
  "is_nchar c \<longleftrightarrow>
     is_digit10 c \<or> (97 \<le> (of_char c :: int) \<and> (of_char c :: int) \<le> 122) \<or>
     (65 \<le> (of_char c :: int) \<and> (of_char c :: int) \<le> 90) \<or> c = CHR ''_''"

definition to_lower :: "char \<Rightarrow> char" where
  "to_lower c =
     (case map_of (zip ''ABCDEFGHIJKLMNOPQRSTUVWXYZ'' ''abcdefghijklmnopqrstuvwxyz'') c of
        Some l \<Rightarrow> l
      | None \<Rightarrow> c)"

text \<open>The bytes at \<open>p\<close> that satisfy \<open>P\<close>, and what follows them.\<close>

fun span_chars :: "(char \<Rightarrow> bool) \<Rightarrow> char list \<Rightarrow> fault + string \<times> char list" where
  "span_chars P [] = Inl BufferBounds"
| "span_chars P (x # xs) =
     (if P x
      then (case span_chars P xs of Inl f \<Rightarrow> Inl f | Inr (ys, r) \<Rightarrow> Inr (x # ys, r))
      else Inr ([], x # xs))"

text \<open>Whether the lower-case word \<open>w\<close> stands at \<open>p\<close>, in either case.\<close>

fun match_word :: "string \<Rightarrow> char list \<Rightarrow> fault + bool" where
  "match_word [] p = Inr True"
| "match_word (w # ws) [] = Inl BufferBounds"
| "match_word (w # ws) (x # xs) = (if to_lower x = w then match_word ws xs else Inr False)"

text \<open>Digits with at most one point; nothing when there is no digit.\<close>

definition read_mantissa :: "(char \<Rightarrow> bool) \<Rightarrow> char list \<Rightarrow> fault + string \<times> char list" where
  "read_mantissa P r =
     bnd (span_chars P r) (\<lambda>(whole, r1).
       case r1 of
         [] \<Rightarrow> Inl BufferBounds
       | x # xs \<Rightarrow>
           if x = CHR ''.''
           then bnd (span_chars P xs) (\<lambda>(frac, r2).
                  if whole = [] \<and> frac = [] then Inr ([], r)
                  else Inr (whole @ CHR ''.'' # frac, r2))
           else Inr (whole, r1))"

text \<open>The exponent part with the letter \<open>mark\<close>; nothing when no digit follows.\<close>

definition read_exponent :: "char \<Rightarrow> char list \<Rightarrow> fault + string" where
  "read_exponent mark r =
     (case r of
        [] \<Rightarrow> Inl BufferBounds
      | x # xs \<Rightarrow>
          if to_lower x = mark
          then (case xs of
                  [] \<Rightarrow> Inl BufferBounds
                | y # ys \<Rightarrow>
                    let signed = (y = CHR ''+'' \<or> y = CHR ''-'') in
                    bnd (span_chars is_digit10 (if signed then ys else xs)) (\<lambda>(ds, r').
                      Inr (if ds = [] then []
                           else x # (if signed then [y] else []) @ ds)))
          else Inr [])"

text \<open>What follows \<open>nan\<close>: the parenthesised characters, if they are closed.\<close>

definition read_nan_tail :: "char list \<Rightarrow> fault + string" where
  "read_nan_tail r =
     (case r of
        [] \<Rightarrow> Inl BufferBounds
      | x # xs \<Rightarrow>
          if x = CHR ''(''
          then bnd (span_chars is_nchar xs) (\<lambda>(cs, r').
                 case r' of
                   [] \<Rightarrow> Inl BufferBounds
                 | y # ys \<Rightarrow> Inr (if y = CHR '')'' then CHR ''('' # cs @ '')'' else []))
          else Inr [])"

definition read_number :: "char list \<Rightarrow> fault + string" where
  "read_number r =
     bnd (match_word ''inf'' r) (\<lambda>inf.
       if inf then bnd (match_word ''inity'' (drop 3 r)) (\<lambda>long.
                     Inr (take (if long then 8 else 3) r))
       else
     bnd (match_word ''nan'' r) (\<lambda>nan.
       if nan then bnd (read_nan_tail (drop 3 r)) (\<lambda>t. Inr (take 3 r @ t))
       else
     bnd (match_word ''0x'' r) (\<lambda>hex.
     bnd (if hex then read_mantissa is_digit16 (drop 2 r) else Inr ([], r)) (\<lambda>(hm, hr).
       if hm \<noteq> [] then bnd (read_exponent (CHR ''p'') hr) (\<lambda>e. Inr (take 2 r @ hm @ e))
       else
     bnd (read_mantissa is_digit10 r) (\<lambda>(m, r1).
       if m = [] then Inr []
       else bnd (read_exponent (CHR ''e'') r1) (\<lambda>e. Inr (m @ e)))))))"

definition strtod :: "char list \<Rightarrow> fault + string" where
  "strtod p =
     bnd (skip_space p) (\<lambda>q.
       let (neg, r) = skip_sign q in
       bnd (read_number r) (\<lambda>t.
         Inr (if t = [] then [] else if neg then CHR ''-'' # t else t)))"

section \<open>P1MeterParser.h: registry codes and the reading\<close>

abbreviation OBIS_VERSION :: string where "OBIS_VERSION \<equiv> ''1-3:0.2.8''"
abbreviation OBIS_DATETIME :: string where "OBIS_DATETIME \<equiv> ''0-0:1.0.0''"
abbreviation OBIS_EQUIPMENTID :: string where "OBIS_EQUIPMENTID \<equiv> ''0-0:96.1.1''"
abbreviation OBIS_TARIFF1_DELIVERED :: string where "OBIS_TARIFF1_DELIVERED \<equiv> ''1-0:1.8.1''"
abbreviation OBIS_TARIFF2_DELIVERED :: string where "OBIS_TARIFF2_DELIVERED \<equiv> ''1-0:1.8.2''"
abbreviation OBIS_TARIFF1_PRODUCED :: string where "OBIS_TARIFF1_PRODUCED \<equiv> ''1-0:2.8.1''"
abbreviation OBIS_TARIFF2_PRODUCED :: string where "OBIS_TARIFF2_PRODUCED \<equiv> ''1-0:2.8.2''"
abbreviation OBIS_TARIFF_INDICATOR :: string where "OBIS_TARIFF_INDICATOR \<equiv> ''0-0:96.14.0''"
abbreviation OBIS_ACTUAL_DELIVERED :: string where "OBIS_ACTUAL_DELIVERED \<equiv> ''1-0:1.7.0''"
abbreviation OBIS_ACTUAL_PRODUCED :: string where "OBIS_ACTUAL_PRODUCED \<equiv> ''1-0:2.7.0''"
abbreviation OBIS_NUMBER_POWER_FAIL :: string where "OBIS_NUMBER_POWER_FAIL \<equiv> ''0-0:96.7.21''"
abbreviation OBIS_LONG_POWER_FAIL :: string where "OBIS_LONG_POWER_FAIL \<equiv> ''0-0:96.7.9''"
abbreviation OBIS_POWER_LOG :: string where "OBIS_POWER_LOG \<equiv> ''1-0:99.97.0''"
abbreviation OBIS_POWER_LOG_ITEM :: string where "OBIS_POWER_LOG_ITEM \<equiv> ''0-0:96.7.19''"
abbreviation OBIS_NUM_VOLTAGE_SAG_L1 :: string where "OBIS_NUM_VOLTAGE_SAG_L1 \<equiv> ''1-0:32.32.0''"
abbreviation OBIS_NUM_VOLTAGE_SAG_L2 :: string where "OBIS_NUM_VOLTAGE_SAG_L2 \<equiv> ''1-0:52.32.0''"
abbreviation OBIS_NUM_VOLTAGE_SAG_L3 :: string where "OBIS_NUM_VOLTAGE_SAG_L3 \<equiv> ''1-0:72.32.0''"
abbreviation OBIS_NUM_VOLTAGE_SWL_L1 :: string where "OBIS_NUM_VOLTAGE_SWL_L1 \<equiv> ''1-0:32.36.0''"
abbreviation OBIS_NUM_VOLTAGE_SWL_L2 :: string where "OBIS_NUM_VOLTAGE_SWL_L2 \<equiv> ''1-0:52.36.0''"
abbreviation OBIS_NUM_VOLTAGE_SWL_L3 :: string where "OBIS_NUM_VOLTAGE_SWL_L3 \<equiv> ''1-0:72.36.0''"
abbreviation OBIS_TEXT_MESSAGE :: string where "OBIS_TEXT_MESSAGE \<equiv> ''0-0:96.13.0''"
abbreviation OBIS_VOLTAGE_L1 :: string where "OBIS_VOLTAGE_L1 \<equiv> ''1-0:32.7.0''"
abbreviation OBIS_VOLTAGE_L2 :: string where "OBIS_VOLTAGE_L2 \<equiv> ''1-0:52.7.0''"
abbreviation OBIS_VOLTAGE_L3 :: string where "OBIS_VOLTAGE_L3 \<equiv> ''1-0:72.7.0''"
abbreviation OBIS_CURRENT_L1 :: string where "OBIS_CURRENT_L1 \<equiv> ''1-0:31.7.0''"
abbreviation OBIS_CURRENT_L2 :: string where "OBIS_CURRENT_L2 \<equiv> ''1-0:51.7.0''"
abbreviation OBIS_CURRENT_L3 :: string where "OBIS_CURRENT_L3 \<equiv> ''1-0:71.7.0''"
abbreviation OBIS_POWER_POS_L1 :: string where "OBIS_POWER_POS_L1 \<equiv> ''1-0:21.7.0''"
abbreviation OBIS_POWER_POS_L2 :: string where "OBIS_POWER_POS_L2 \<equiv> ''1-0:41.7.0''"
abbreviation OBIS_POWER_POS_L3 :: string where "OBIS_POWER_POS_L3 \<equiv> ''1-0:61.7.0''"
abbreviation OBIS_POWER_NEG_L1 :: string where "OBIS_POWER_NEG_L1 \<equiv> ''1-0:22.7.0''"
abbreviation OBIS_POWER_NEG_L2 :: string where "OBIS_POWER_NEG_L2 \<equiv> ''1-0:42.7.0''"
abbreviation OBIS_POWER_NEG_L3 :: string where "OBIS_POWER_NEG_L3 \<equiv> ''1-0:62.7.0''"
abbreviation OBIS_DEVICE_TYPE :: string where "OBIS_DEVICE_TYPE \<equiv> '':24.1.0''"
abbreviation OBIS_EQUIPMENT_IDENT :: string where "OBIS_EQUIPMENT_IDENT \<equiv> '':96.1.0''"
abbreviation OBIS_DEVICE_VALUE :: string where "OBIS_DEVICE_VALUE \<equiv> '':24.2.1''"

text \<open>\<open>enum EMBusDeviceType\<close>, with the values a cast can store that name no
  enumerator.\<close>

datatype EMBusDeviceType = Gas | Thermal | Water | Unlisted "32 word"

definition to_EMBusDeviceType :: "32 word \<Rightarrow> EMBusDeviceType" where
  "to_EMBusDeviceType v =
     (if v = 3 then Gas else if v = 4 then Thermal else if v = 255 then Water
      else Unlisted v)"

record PowerFailureLogStruct =
  DateTime_log :: "char list"     \<comment> \<open>\<open>char DateTime[14]\<close>\<close>
  Duration :: string              \<comment> \<open>\<open>double\<close>, as the text \<open>strtod\<close> read\<close>

record MBusReading =
  DateTime_mbus :: "char list"    \<comment> \<open>\<open>char DateTime[14]\<close>\<close>
  Value :: "32 word"
  Unit :: "char list"             \<comment> \<open>\<open>char Unit[4]\<close>\<close>

record MBusDevice =
  DeviceType :: EMBusDeviceType
  EquipmentID_mbus :: string
  Reading :: MBusReading

record P1Data =
  HeaderInfo :: string
  P1Version :: "8 word"
  DateTime :: "char list"         \<comment> \<open>\<open>char DateTime[14]\<close>\<close>
  EquipmentID :: string
  DeliveredTariff1 :: "32 word"
  DeliveredTariff2 :: "32 word"
  ProducedTariff1 :: "32 word"
  ProducedTariff2 :: "32 word"
  CurrentTariff :: "8 word"
  ActualDelivered :: "32 word"
  ActualProduced :: "32 word"
  PowerFailures :: "32 word"
  LongPowerFailures :: "32 word"
  PowerFailureLogs :: "PowerFailureLogStruct list"   \<comment> \<open>\<open>[3]\<close>\<close>
  VoltageSags :: "32 word list"                      \<comment> \<open>\<open>[3]\<close>\<close>
  VoltageSwells :: "32 word list"                    \<comment> \<open>\<open>[3]\<close>\<close>
  TextMessage :: string
  Voltage :: "32 word list"                          \<comment> \<open>\<open>[3]\<close>\<close>
  Current :: "32 word list"                          \<comment> \<open>\<open>[3]\<close>\<close>
  PowerDelivered :: "32 word list"                   \<comment> \<open>\<open>[3]\<close>\<close>
  PowerProduced :: "32 word list"                    \<comment> \<open>\<open>[3]\<close>\<close>
  MBusDevices :: "MBusDevice list"                   \<comment> \<open>\<open>[3]\<close>\<close>
  CRC :: "16 word"
  ValidCRC :: bool
  NumberOfMBusDevices :: "8 word"

text \<open>The hardware calls of \<open>ReceiveTelegram\<close> on the CTS pin, in the order made.\<close>

datatype pin_op = PinModeOutput "8 word" | DigitalWriteHigh "8 word" | PinModeInput "8 word"

record P1Meter =
  DataReady :: bool
  buffer :: "char list"           \<comment> \<open>the \<open>BUFFER_SIZE + 1\<close> bytes at \<open>char *buffer\<close>\<close>
  bufferIndex :: int              \<comment> \<open>\<open>int16_t\<close>\<close>
  data :: P1Data
  ctsPin :: "8 word"
  ctsHigh :: bool
  pins :: "pin_op list"

section \<open>P1Meter.cpp: the helper functions\<close>

definition calcCRC16 :: "bool \<Rightarrow> char list \<Rightarrow> int \<Rightarrow> fault + 16 word" where
  "calcCRC16 sc b len = CRC16_IBM_REVERSED sc b (nat (u16 len))"

text \<open>\<open>indexOf(uint8_t character, int16_t startIndex)\<close>. The difference
  \<open>temp - buffer\<close> is at most \<open>BUFFER_SIZE\<close>, so its conversion to \<open>int16_t\<close> keeps it.\<close>

definition indexOf :: "char list \<Rightarrow> char \<Rightarrow> int \<Rightarrow> fault + int" where
  "indexOf b character startIndex =
     bnd (at_offset b (i16 startIndex)) (\<lambda>p.
     bnd (strchr p character) (\<lambda>temp.
       Inr (case temp of None \<Rightarrow> - 1 | Some k \<Rightarrow> i16 startIndex + int k)))"

definition lastIndexOf :: "char list \<Rightarrow> char \<Rightarrow> int \<Rightarrow> fault + int" where
  "lastIndexOf b character fromIndex =
     bnd (at_offset b (u16 fromIndex)) (\<lambda>p.
     bnd (strrchr p character) (\<lambda>temp.
       Inr (case temp of None \<Rightarrow> - 1 | Some k \<Rightarrow> u16 fromIndex + int k)))"

definition startsWith :: "char list \<Rightarrow> string \<Rightarrow> int \<Rightarrow> fault + bool" where
  "startsWith b findString offset =
     bnd (at_offset b (u16 offset)) (\<lambda>p. strncmp_eq p findString)"

text \<open>\<open>getSubString(uint16_t startIndex, uint16_t endIndex)\<close> puts a NUL at
  \<open>endIndex\<close>, copies the string at \<open>startIndex\<close> and puts the byte back: the buffer
  is the same afterwards.\<close>

definition getSubString :: "char list \<Rightarrow> int \<Rightarrow> int \<Rightarrow> fault + string" where
  "getSubString b startIndex endIndex =
     (if u16 endIndex \<le> int BUFFER_SIZE \<and> nat (u16 endIndex) < length b
      then bnd (at_offset (b[nat (u16 endIndex) := NUL]) (u16 startIndex)) c_string
      else Inl BufferBounds)"

section \<open>P1Meter.cpp: decoding one line\<close>

text \<open>The statement shapes that the branches of \<open>ProcessTelegram\<close> repeat.\<close>

text \<open>\<open>strtoul(&buffer[indexOf('(', startOfLine) + 1], NULL, 10)\<close>\<close>

definition paren_ulong :: "char list \<Rightarrow> int \<Rightarrow> fault + 32 word" where
  "paren_ulong b startOfLine =
     bnd (indexOf b (CHR ''('') startOfLine) (\<lambda>i.
     bnd (at_offset b (i + 1)) (\<lambda>p. strtoul p 10))"

text \<open>The bytes written by \<open>strncpy(dst, buffer + indexOf('(', startOfLine) + 1, n)\<close>\<close>

definition paren_chars :: "char list \<Rightarrow> int \<Rightarrow> nat \<Rightarrow> fault + char list" where
  "paren_chars b startOfLine n =
     bnd (indexOf b (CHR ''('') startOfLine) (\<lambda>i.
     bnd (at_offset b (i + 1)) (\<lambda>p. strncpy_src p n))"

text \<open>\<open>getSubString(indexOf('(', startOfLine) + 1, endOfLine - 2)\<close>\<close>

definition paren_text :: "char list \<Rightarrow> int \<Rightarrow> int \<Rightarrow> fault + string" where
  "paren_text b startOfLine endOfLine =
     bnd (indexOf b (CHR ''('') startOfLine) (\<lambda>i. getSubString b (i + 1) (endOfLine - 2))"

text \<open>
  The fixed-point branches, with \<open>w\<close> digits before the decimal point and \<open>f\<close> after:
  \<^verbatim>\<open>
  memset(valueBuffer, 0, 10);
  strncpy(valueBuffer, buffer + indexOf('(', startOfLine) + 1, w);
  strncpy(&valueBuffer[w], buffer + indexOf('.', startOfLine + 10) + 1, f);
  ... = strtoul(valueBuffer, NULL, 10);
  \<close>
\<close>

definition fixed_value :: "char list \<Rightarrow> int \<Rightarrow> nat \<Rightarrow> nat \<Rightarrow> fault + 32 word" where
  "fixed_value b startOfLine w f =
     bnd (paren_chars b startOfLine w) (\<lambda>whole.
     bnd (store (replicate 10 NUL) 0 whole) (\<lambda>valueBuffer.
     bnd (indexOf b (CHR ''.'') (startOfLine + 10)) (\<lambda>i.
     bnd (at_offset b (i + 1)) (\<lambda>p.
     bnd (strncpy_src p f) (\<lambda>fraction.
     bnd (store valueBuffer w fraction) (\<lambda>valueBuffer.
       strtoul valueBuffer 10))))))"

text \<open>The loop of the \<open>OBIS_POWER_LOG\<close> branch; \<open>i\<close> and \<open>numberOfLogs\<close> are
  \<open>uint8_t\<close>, \<open>index1\<close> and \<open>index2\<close> are \<open>uint16_t\<close>.\<close>

function power_log_loop :: "char list \<Rightarrow> nat \<Rightarrow> nat \<Rightarrow> int \<Rightarrow> P1Data \<Rightarrow> fault + P1Data" where
  "power_log_loop b numberOfLogs i index2 d =
     (if i < numberOfLogs then
        bnd (indexOf b (CHR ''('') (index2 + 1)) (\<lambda>r1.
        bnd (at_offset b (u16 r1 + 1)) (\<lambda>p1.
        bnd (strncpy_src p1 13) (\<lambda>stamp.
        if length (PowerFailureLogs d) \<le> i then Inl (LogBounds i) else
        bnd (store (DateTime_log (PowerFailureLogs d ! i)) 0 stamp) (\<lambda>dt.
        bnd (indexOf b (CHR ''('') (u16 r1 + 1)) (\<lambda>r2.
        bnd (at_offset b (u16 r2 + 1)) (\<lambda>p2.
        bnd (strtod p2) (\<lambda>dur.
          power_log_loop b numberOfLogs (i + 1) (u16 r2)
            (d\<lparr>PowerFailureLogs :=
                 (PowerFailureLogs d)[i := \<lparr>DateTime_log = dt, Duration = dur\<rparr>]\<rparr>))))))))
      else Inr d)"
  by pat_completeness auto
termination
  by (relation "measure (\<lambda>(b, numberOfLogs, i, index2, d). numberOfLogs - i)") auto

declare power_log_loop.simps [simp del]

definition power_log :: "char list \<Rightarrow> int \<Rightarrow> P1Data \<Rightarrow> fault + P1Data" where
  "power_log b startOfLine d =
     bnd (indexOf b (CHR ''('') startOfLine) (\<lambda>r.
       let index1 = u16 (r + 1); index2 = u16 (index1 + 3) in
       bnd (at_offset b index1) (\<lambda>p.
       bnd (strtoul p 10) (\<lambda>v.
         power_log_loop b (unat (ucast v :: 8 word)) 0 index2 d)))"

text \<open>\<open>int8_t currentDeviceNumber = strtoul(&buffer[indexOf('-', startOfLine) + 1], NULL, 10)\<close>\<close>

definition device_number :: "char list \<Rightarrow> int \<Rightarrow> fault + int" where
  "device_number b startOfLine =
     bnd (indexOf b (CHR ''-'') startOfLine) (\<lambda>i.
     bnd (at_offset b (i + 1)) (\<lambda>p.
     bnd (strtoul p 10) (\<lambda>v. Inr (sint (ucast v :: 8 word)))))"

text \<open>An assignment to a member of \<open>data.MBusDevices[idx]\<close>.\<close>

definition on_device ::
  "P1Data \<Rightarrow> int \<Rightarrow> (MBusDevice \<Rightarrow> fault + MBusDevice) \<Rightarrow> fault + P1Data" where
  "on_device d idx f =
     (if 0 \<le> idx \<and> nat idx < length (MBusDevices d)
      then bnd (f (MBusDevices d ! nat idx)) (\<lambda>m.
             Inr (d\<lparr>MBusDevices := (MBusDevices d)[nat idx := m]\<rparr>))
      else Inl (DeviceBounds idx))"

text \<open>
  The statements of the \<open>OBIS_DEVICE_VALUE\<close> branch that read the magnitude
  \<^verbatim>\<open>
  strncpy(valueBuffer, buffer + valueIndex + 1, 5);
  strncpy(&valueBuffer[5], buffer + indexOf('.', valueIndex + 1) + 1, 3);
  ... = strtoul(valueBuffer, NULL, 10);
  \<close>
  and the bytes that the last \<open>strncpy\<close> of the branch writes into \<open>Unit\<close>; its
  length \<open>indexOf(')', valueIndex) - valueIndex - 1\<close> becomes a \<open>size_t\<close>, so a
  negative one is a length no field holds.
\<close>

definition device_magnitude :: "char list \<Rightarrow> int \<Rightarrow> fault + 32 word" where
  "device_magnitude b valueIndex =
     bnd (at_offset b (valueIndex + 1)) (\<lambda>p.
     bnd (strncpy_src p 5) (\<lambda>whole.
     bnd (store (replicate 10 NUL) 0 whole) (\<lambda>valueBuffer.
     bnd (indexOf b (CHR ''.'') (valueIndex + 1)) (\<lambda>i.
     bnd (at_offset b (i + 1)) (\<lambda>q.
     bnd (strncpy_src q 3) (\<lambda>fraction.
     bnd (store valueBuffer 5 fraction) (\<lambda>valueBuffer.
       strtoul valueBuffer 10)))))))"

definition device_unit :: "char list \<Rightarrow> int \<Rightarrow> fault + char list" where
  "device_unit b valueIndex =
     bnd (indexOf b (CHR '')'') valueIndex) (\<lambda>closing.
       if closing - valueIndex - 1 < 0 then Inl FieldBounds
       else bnd (at_offset b (valueIndex + 1)) (\<lambda>p.
              strncpy_src p (nat (closing - valueIndex - 1))))"

definition device_value :: "char list \<Rightarrow> int \<Rightarrow> P1Data \<Rightarrow> fault + P1Data" where
  "device_value b startOfLine d =
     bnd (device_number b startOfLine) (\<lambda>currentDeviceNumber.
     bnd (indexOf b (CHR ''('') startOfLine) (\<lambda>valueIndex1.
     bnd (at_offset b (valueIndex1 + 1)) (\<lambda>p.
     bnd (strncpy_src p 13) (\<lambda>stamp.
     bnd (on_device d (currentDeviceNumber - 1) (\<lambda>m.
            bnd (store (DateTime_mbus (Reading m)) 0 stamp) (\<lambda>dt.
              Inr (m\<lparr>Reading := (Reading m)\<lparr>DateTime_mbus := dt\<rparr>\<rparr>)))) (\<lambda>d1.
     bnd (indexOf b (CHR ''('') (valueIndex1 + 1)) (\<lambda>valueIndex2.
     bnd (device_magnitude b valueIndex2) (\<lambda>v.
     bnd (on_device d1 (currentDeviceNumber - 1) (\<lambda>m.
            Inr (m\<lparr>Reading := (Reading m)\<lparr>Value := v\<rparr>\<rparr>))) (\<lambda>d2.
     bnd (indexOf b (CHR ''*'') (valueIndex2 + 1)) (\<lambda>valueIndex3.
     bnd (device_unit b valueIndex3) (\<lambda>unit_text.
       on_device d2 (currentDeviceNumber - 1) (\<lambda>m.
         bnd (store (Unit (Reading m)) 0 unit_text) (\<lambda>u.
           Inr (m\<lparr>Reading := (Reading m)\<lparr>Unit := u\<rparr>\<rparr>)))))))))))))"

text \<open>
  The \<open>if ... else if ...\<close> chain of the loop body, as the ordered list of its branches:
  the code compared, the offset from \<open>startOfLine\<close> at which it is compared, and the
  assignment made. The first branch whose code matches is taken, and no other. The
  list has the branches of the source in the order of the source, those included that
  repeat the condition of an earlier branch.
\<close>

type_synonym branch = "string \<times> int \<times> (P1Data \<Rightarrow> fault + P1Data)"

definition branches :: "char list \<Rightarrow> int \<Rightarrow> int \<Rightarrow> branch list" where
  "branches b startOfLine endOfLine =
   [ (OBIS_VERSION, 0, \<lambda>d.
        bnd (paren_ulong b startOfLine) (\<lambda>v. Inr (d\<lparr>P1Version := ucast v\<rparr>))),
     (OBIS_DATETIME, 0, \<lambda>d.
        bnd (paren_chars b startOfLine 13) (\<lambda>t.
        bnd (store (DateTime d) 0 t) (\<lambda>dt. Inr (d\<lparr>DateTime := dt\<rparr>)))),
     (OBIS_EQUIPMENTID, 0, \<lambda>d.
        bnd (paren_text b startOfLine endOfLine) (\<lambda>t. Inr (d\<lparr>EquipmentID := t\<rparr>))),
     (OBIS_TARIFF1_DELIVERED, 0, \<lambda>d.
        bnd (fixed_value b startOfLine 6 3) (\<lambda>v. Inr (d\<lparr>DeliveredTariff1 := v\<rparr>))),
     (OBIS_TARIFF2_DELIVERED, 0, \<lambda>d.
        bnd (fixed_value b startOfLine 6 3) (\<lambda>v. Inr (d\<lparr>DeliveredTariff2 := v\<rparr>))),
     (OBIS_TARIFF1_PRODUCED, 0, \<lambda>d.
        bnd (fixed_value b startOfLine 6 3) (\<lambda>v. Inr (d\<lparr>ProducedTariff1 := v\<rparr>))),
     (OBIS_TARIFF2_PRODUCED, 0, \<lambda>d.
        bnd (fixed_value b startOfLine 6 3) (\<lambda>v. Inr (d\<lparr>ProducedTariff2 := v\<rparr>))),
     (OBIS_TARIFF_INDICATOR, 0, \<lambda>d.
        bnd (paren_ulong b startOfLine) (\<lambda>v. Inr (d\<lparr>CurrentTariff := ucast v\<rparr>))),
     (OBIS_ACTUAL_DELIVERED, 0, \<lambda>d.
        bnd (fixed_value b startOfLine 2 3) (\<lambda>v. Inr (d\<lparr>ActualDelivered := v\<rparr>))),
     (OBIS_ACTUAL_PRODUCED, 0, \<lambda>d.
        bnd (fixed_value b startOfLine 2 3) (\<lambda>v. Inr (d\<lparr>ActualProduced := v\<rparr>))),
     (OBIS_NUMBER_POWER_FAIL, 0, \<lambda>d.
        bnd (paren_ulong b startOfLine) (\<lambda>v. Inr (d\<lparr>PowerFailures := v\<rparr>))),
     (OBIS_LONG_POWER_FAIL, 0, \<lambda>d.
        bnd (paren_ulong b startOfLine) (\<lambda>v. Inr (d\<lparr>LongPowerFailures := v\<rparr>))),
     (OBIS_POWER_LOG, 0, \<lambda>d. power_log b startOfLine d),
     (OBIS_NUM_VOLTAGE_SAG_L1, 0, \<lambda>d.
        bnd (paren_ulong b startOfLine) (\<lambda>v. Inr (d\<lparr>VoltageSags := (VoltageSags d)[0 := v]\<rparr>))),
     (OBIS_NUM_VOLTAGE_SAG_L2, 0, \<lambda>d.
        bnd (paren_ulong b startOfLine) (\<lambda>v. Inr (d\<lparr>VoltageSags := (VoltageSags d)[1 := v]\<rparr>))),
     (OBIS_NUM_VOLTAGE_SAG_L3, 0, \<lambda>d.
        bnd (paren_ulong b startOfLine) (\<lambda>v. Inr (d\<lparr>VoltageSags := (VoltageSags d)[2 := v]\<rparr>))),
     (OBIS_NUM_VOLTAGE_SWL_L1, 0, \<lambda>d.
        bnd (paren_ulong b startOfLine) (\<lambda>v. Inr (d\<lparr>VoltageSwells := (VoltageSwells d)[0 := v]\<rparr>))),
     (OBIS_NUM_VOLTAGE_SWL_L2, 0, \<lambda>d.
        bnd (paren_ulong b startOfLine) (\<lambda>v. Inr (d\<lparr>VoltageSwells := (VoltageSwells d)[1 := v]\<rparr>))),
     (OBIS_NUM_VOLTAGE_SWL_L3, 0, \<lambda>d.
        bnd (paren_ulong b startOfLine) (\<lambda>v. Inr (d\<lparr>VoltageSwells := (VoltageSwells d)[2 := v]\<rparr>))),
     (OBIS_TEXT_MESSAGE, 0, \<lambda>d.
        bnd (paren_text b startOfLine endOfLine) (\<lambda>t. Inr (d\<lparr>TextMessage := t\<rparr>))),
     (OBIS_VOLTAGE_L1, 0, \<lambda>d.
        bnd (fixed_value b startOfLine 3 1) (\<lambda>v. Inr (d\<lparr>Voltage := (Voltage d)[0 := v]\<rparr>))),
     (OBIS_VOLTAGE_L2, 0, \<lambda>d.
        bnd (fixed_value b startOfLine 3 1) (\<lambda>v. Inr (d\<lparr>Voltage := (Voltage d)[1 := v]\<rparr>))),
     (OBIS_VOLTAGE_L3, 0, \<lambda>d.
        bnd (fixed_value b startOfLine 3 1) (\<lambda>v. Inr (d\<lparr>Voltage := (Voltage d)[2 := v]\<rparr>))),
     (OBIS_CURRENT_L1, 0, \<lambda>d.
        bnd (paren_ulong b startOfLine) (\<lambda>v. Inr (d\<lparr>Current := (Current d)[0 := v]\<rparr>))),
     (OBIS_CURRENT_L2, 0, \<lambda>d.
        bnd (paren_ulong b startOfLine) (\<lambda>v. Inr (d\<lparr>Current := (Current d)[1 := v]\<rparr>))),
     (OBIS_CURRENT_L3, 0, \<lambda>d.
        bnd (paren_ulong b startOfLine) (\<lambda>v. Inr (d\<lparr>Current := (Current d)[2 := v]\<rparr>))),
     (OBIS_POWER_POS_L1, 0, \<lambda>d.
        bnd (fixed_value b startOfLine 2 3) (\<lambda>v.
          Inr (d\<lparr>PowerDelivered := (PowerDelivered d)[0 := v]\<rparr>))),
     (OBIS_POWER_POS_L2, 0, \<lambda>d.
        bnd (fixed_value b startOfLine 2 3) (\<lambda>v.
          Inr (d\<lparr>PowerDelivered := (PowerDelivered d)[1 := v]\<rparr>))),
     (OBIS_POWER_POS_L3, 0, \<lambda>d.
        bnd (fixed_value b startOfLine 2 3) (\<lambda>v.
          Inr (d\<lparr>PowerDelivered := (PowerDelivered d)[2 := v]\<rparr>))),
     (OBIS_POWER_POS_L1, 0, \<lambda>d.
        bnd (fixed_value b startOfLine 2 3) (\<lambda>v.
          Inr (d\<lparr>PowerProduced := (PowerProduced d)[0 := v]\<rparr>))),
     (OBIS_POWER_POS_L2, 0, \<lambda>d.
        bnd (fixed_value b startOfLine 2 3) (\<lambda>v.
          Inr (d\<lparr>PowerProduced := (PowerProduced d)[1 := v]\<rparr>))),
     (OBIS_POWER_POS_L3, 0, \<lambda>d.
        bnd (fixed_value b startOfLine 2 3) (\<lambda>v.
          Inr (d\<lparr>PowerProduced := (PowerProduced d)[2 := v]\<rparr>))),
     (OBIS_DEVICE_TYPE, 3, \<lambda>d.
        bnd (device_number b startOfLine) (\<lambda>currentDeviceNumber.
        bnd (paren_ulong b startOfLine) (\<lambda>v.
          on_device d (currentDeviceNumber - 1) (\<lambda>m.
            Inr (m\<lparr>DeviceType := to_EMBusDeviceType v\<rparr>))))),
     (OBIS_EQUIPMENT_IDENT, 3, \<lambda>d.
        bnd (device_number b startOfLine) (\<lambda>currentDeviceNumber.
        bnd (paren_text b startOfLine endOfLine) (\<lambda>t.
          on_device d (currentDeviceNumber - 1) (\<lambda>m.
            Inr (m\<lparr>EquipmentID_mbus := t\<rparr>))))),
     (OBIS_DEVICE_VALUE, 3, \<lambda>d. device_value b startOfLine d) ]"

fun first_match :: "char list \<Rightarrow> int \<Rightarrow> branch list \<Rightarrow> P1Data \<Rightarrow> fault + P1Data" where
  "first_match b startOfLine [] d = Inr d"
| "first_match b startOfLine ((code, delta, assign) # rest) d =
     bnd (startsWith b code (startOfLine + delta)) (\<lambda>hit.
       if hit then assign d else first_match b startOfLine rest d)"

definition decode_line :: "char list \<Rightarrow> int \<Rightarrow> int \<Rightarrow> P1Data \<Rightarrow> fault + P1Data" where
  "decode_line b startOfLine endOfLine d =
     first_match b startOfLine (branches b startOfLine endOfLine) d"

section \<open>P1Meter.cpp: \<open>ProcessTelegram\<close>\<close>

text \<open>What the \<open>while\<close> loop needs in order to end: a line terminator that
  \<open>indexOf\<close> finds lies at or after the place the search starts from.\<close>

lemma strchr_from_Some:
  "strchr_from p c k0 = Inr (Some k) \<Longrightarrow> k0 \<le> k \<and> k < k0 + length p"
proof (induction p arbitrary: k0)
  case Nil
  then show ?case by simp
next
  case (Cons x xs)
  show ?case
  proof (cases "x = c \<or> x = NUL")
    case True
    then show ?thesis using Cons.prems by (auto split: if_splits)
  next
    case False
    then have "strchr_from xs c (k0 + 1) = Inr (Some k)" using Cons.prems by simp
    from Cons.IH[OF this] show ?thesis by simp
  qed
qed

lemma strchr_Some_less: "strchr p c = Inr (Some k) \<Longrightarrow> k < length p"
  using strchr_from_Some[of p c 0 k] by (simp add: strchr_def)

lemma i16_id: "- 32768 \<le> x \<Longrightarrow> x < 32768 \<Longrightarrow> i16 x = x"
  by (simp add: i16_def)

lemma indexOf_range:
  assumes "indexOf b c st = Inr r"
  shows "r = - 1 \<or> (i16 st \<le> r \<and> 0 \<le> r \<and> r \<le> int BUFFER_SIZE)"
proof -
  from assms obtain p t where p: "at_offset b (i16 st) = Inr p" and t: "strchr p c = Inr t"
    and r: "r = (case t of None \<Rightarrow> - 1 | Some k \<Rightarrow> i16 st + int k)"
    by (auto simp: indexOf_def bnd_eq_Inr)
  from p have st: "0 \<le> i16 st" "i16 st \<le> int BUFFER_SIZE"
    and pd: "p = drop (nat (i16 st)) (window b)"
    by (auto simp: at_offset_def split: if_splits)
  show ?thesis
  proof (cases t)
    case None
    then show ?thesis using r by simp
  next
    case (Some k)
    then have "k < length p" using t strchr_Some_less by simp
    then have "int k + i16 st < int BUFFER_SIZE + 1" using pd st by (simp add: window_def)
    then show ?thesis using r Some st by simp
  qed
qed

text \<open>
  \<^verbatim>\<open>
  while (endOfLine < bufferIndex && endOfLine != -1) {
      startOfLine = endOfLine + 1;
      endOfLine = indexOf('\n', startOfLine + 1);
      ...
  }
  \<close>
  \<open>startOfLine\<close> is an \<open>int16_t\<close>: it is \<open>i16 (endOfLine + 1)\<close>.
\<close>

function parse_lines :: "char list \<Rightarrow> int \<Rightarrow> int \<Rightarrow> P1Data \<Rightarrow> fault + P1Data" where
  "parse_lines b bufIndex endOfLine d =
     (if endOfLine < bufIndex \<and> endOfLine \<noteq> - 1 then
        bnd (indexOf b LF (i16 (endOfLine + 1) + 1)) (\<lambda>endOfLine'.
        bnd (decode_line b (i16 (endOfLine + 1)) endOfLine' d) (\<lambda>d'.
          parse_lines b bufIndex endOfLine' d'))
      else Inr d)"
  by pat_completeness auto
termination
proof (relation "measure (\<lambda>(b, bufIndex, e, d).
          if e = - 1 then 0
          else if 0 \<le> e \<and> e \<le> int BUFFER_SIZE then BUFFER_SIZE + 2 - nat e
          else BUFFER_SIZE + 3)", goal_cases)
  case 1
  show ?case by simp
next
  case (2 b bufIndex endOfLine d r d')
  from indexOf_range[OF 2(2)] show ?case
  proof
    assume "r = - 1"
    then show ?thesis using 2(1) by (auto simp: nat_less_iff)
  next
    assume a: "i16 (i16 (endOfLine + 1) + 1) \<le> r \<and> 0 \<le> r \<and> r \<le> int BUFFER_SIZE"
    show ?thesis
    proof (cases "0 \<le> endOfLine \<and> endOfLine \<le> int BUFFER_SIZE")
      case True
      then have "i16 (i16 (endOfLine + 1) + 1) = endOfLine + 2"
        by (simp add: i16_id BUFFER_SIZE_def)
      then show ?thesis using a True 2(1) by (auto simp: nat_less_iff)
    next
      case False
      then show ?thesis using a 2(1) by (auto simp: nat_less_iff)
    qed
  qed
qed

declare parse_lines.simps [simp del]

text \<open>The trailer check at the end of \<open>ProcessTelegram\<close>: the CRC field and the
  validity flag.
  \<^verbatim>\<open>
  uint16_t crcIndex = indexOf('!', 0);
  uint16_t calculatedCRC = calcCRC16(buffer, crcIndex + 1);
  char messageCRC[5];
  strncpy(messageCRC, buffer + crcIndex + 1, 4);
  messageCRC[4] = 0;
  data.CRC = strtoul(messageCRC, NULL, 16);
  data.ValidCRC = (data.CRC == calculatedCRC);
  \<close>\<close>

definition check_crc :: "bool \<Rightarrow> char list \<Rightarrow> fault + 16 word \<times> bool" where
  "check_crc sc b =
     bnd (indexOf b (CHR ''!'') 0) (\<lambda>r.
       let crcIndex = u16 r in
       bnd (calcCRC16 sc b (crcIndex + 1)) (\<lambda>calculatedCRC.
       bnd (at_offset b (crcIndex + 1)) (\<lambda>p.
       bnd (strncpy_src p 4) (\<lambda>copied.
       bnd (strtoul (copied @ [NUL]) 16) (\<lambda>v.
         Inr (ucast v, (ucast v :: 16 word) = calculatedCRC))))))"

text \<open>\<open>memset(buffer, 0, BUFFER_SIZE)\<close>\<close>

definition clear_buffer :: "char list \<Rightarrow> fault + char list" where
  "clear_buffer b =
     (if BUFFER_SIZE \<le> length b
      then Inr (replicate BUFFER_SIZE NUL @ drop BUFFER_SIZE b)
      else Inl BufferBounds)"

text \<open>The statements of \<open>ProcessTelegram\<close> before the trailer check: the number of
  M-Bus devices, the header, and the loop over the lines.\<close>

definition read_fields :: "P1Meter \<Rightarrow> fault + P1Data" where
  "read_fields m =
     (let b = buffer m in
      bnd (lastIndexOf b (CHR ''-'') 0) (\<lambda>dash.
      bnd (at_offset b (dash + 1)) (\<lambda>p.
      bnd (strtoul p 10) (\<lambda>n.
      bnd (indexOf b (CHR ''/'') 0) (\<lambda>startOfLine.
      bnd (indexOf b LF 0) (\<lambda>endOfLine.
      bnd (getSubString b (startOfLine + 1) endOfLine) (\<lambda>header.
        parse_lines b (bufferIndex m) endOfLine
          ((data m)\<lparr>NumberOfMBusDevices := ucast n, HeaderInfo := header\<rparr>))))))))"

text \<open>\<open>ProcessTelegram\<close> returns the reading and leaves the object changed; \<open>sc\<close>
  is the signedness of \<open>char\<close> on the target.\<close>

definition ProcessTelegram :: "bool \<Rightarrow> P1Meter \<Rightarrow> fault + P1Data \<times> P1Meter" where
  "ProcessTelegram sc m =
     bnd (read_fields m) (\<lambda>d.
     bnd (check_crc sc (buffer m)) (\<lambda>(crc, valid).
     bnd (clear_buffer (buffer m)) (\<lambda>cleared.
       let d' = d\<lparr>CRC := crc, ValidCRC := valid\<rparr> in
       Inr (d', m\<lparr>buffer := cleared, DataReady := False, data := d'\<rparr>))))"

definition GetBuffer :: "P1Meter \<Rightarrow> char list" where
  "GetBuffer m = buffer m"

definition GetBufferLength :: "P1Meter \<Rightarrow> int" where
  "GetBufferLength m = bufferIndex m"

section \<open>P1Meter.cpp: \<open>ReceiveTelegram\<close>\<close>

text \<open>
  The serial port is modelled by the bytes it delivers, in order. \<open>ReceiveTelegram\<close>
  returns as soon as nothing is available at its first test; once inside its
  \<open>while (!DataReady)\<close> loop it polls until the next byte is there, so a port that
  delivers nothing more leaves the call waiting for ever. That outcome is \<open>Waiting\<close>.

  The test \<open>buffer[bufferIndex - 6] == '!'\<close> is made from the second byte of a
  telegram on, when \<open>bufferIndex\<close> is 1: the first five tests read memory below the
  buffer. That memory is not the object's; \<open>below k\<close> is the byte at
  \<open>buffer[- k]\<close>. A write outside the \<open>BUFFER_SIZE + 1\<close> bytes is a fault.
\<close>

datatype received =
    Returned P1Meter "char list"   \<comment> \<open>the call returned: the object, the bytes not read\<close>
  | Waiting P1Meter                \<comment> \<open>the call is in its loop, all bytes read\<close>
  | Faulted fault

definition poke :: "char list \<Rightarrow> int \<Rightarrow> char \<Rightarrow> fault + char list" where
  "poke b i c =
     (if 0 \<le> i \<and> i \<le> int BUFFER_SIZE \<and> nat i < length b
      then Inr (b[nat i := c])
      else Inl BufferBounds)"

definition peek :: "(nat \<Rightarrow> char) \<Rightarrow> char list \<Rightarrow> int \<Rightarrow> fault + char" where
  "peek below b i =
     (if i < 0 then Inr (below (nat (- i)))
      else if i \<le> int BUFFER_SIZE \<and> nat i < length b then Inr (b ! nat i)
      else Inl BufferBounds)"

definition cts_release :: "P1Meter \<Rightarrow> P1Meter" where
  "cts_release m =
     (if ctsPin m \<noteq> 0xFF
      then m\<lparr>pins := pins m @ [PinModeInput (ctsPin m)], ctsHigh := False\<rparr>
      else m)"

fun receive_loop :: "(nat \<Rightarrow> char) \<Rightarrow> P1Meter \<Rightarrow> char list \<Rightarrow> received" where
  "receive_loop below m [] = (if DataReady m then Returned m [] else Waiting m)"
| "receive_loop below m (c # cs) =
     (if DataReady m then Returned m (c # cs)
      else (case poke (buffer m) (bufferIndex m) c of
              Inl f \<Rightarrow> Faulted f
            | Inr b \<Rightarrow>
               (case peek below b (bufferIndex m - 6) of
                  Inl f \<Rightarrow> Faulted f
                | Inr behind \<Rightarrow>
                    if behind = CHR ''!''
                    then receive_loop below (cts_release (m\<lparr>buffer := b, DataReady := True\<rparr>)) cs
                    else receive_loop below
                           (m\<lparr>buffer := b, bufferIndex := bufferIndex m + 1\<rparr>) cs)))"

definition cts_assert :: "P1Meter \<Rightarrow> P1Meter" where
  "cts_assert m =
     (if \<not> ctsHigh m \<and> ctsPin m \<noteq> 0xFF
      then m\<lparr>pins := pins m @ [PinModeOutput (ctsPin m), DigitalWriteHigh (ctsPin m)],
             ctsHigh := True\<rparr>
      else m)"

definition ReceiveTelegram :: "(nat \<Rightarrow> char) \<Rightarrow> P1Meter \<Rightarrow> char list \<Rightarrow> received" where
  "ReceiveTelegram below m0 serial =
     (let m = cts_assert m0 in
      case serial of
        [] \<Rightarrow> Returned m []
      | c # cs \<Rightarrow>
          if c \<noteq> CHR ''/'' then Returned m cs
          else (case poke (buffer m) 0 c of
                  Inl f \<Rightarrow> Faulted f
                | Inr b \<Rightarrow> receive_loop below (m\<lparr>buffer := b, bufferIndex := 1\<rparr>) cs))"

section \<open>P1Meter.cpp: the constructors\<close>

text \<open>
  Both constructors allocate \<open>BUFFER_SIZE + 1\<close> bytes and clear the first
  \<open>BUFFER_SIZE\<close> of them. The last byte of the allocation and the member \<open>data\<close>
  are left as they are found: \<open>spare\<close> and \<open>d\<close> stand for what is there.
\<close>

definition P1Meter_serial :: "char \<Rightarrow> P1Data \<Rightarrow> P1Meter" where
  "P1Meter_serial spare d =
     \<lparr>DataReady = False, buffer = replicate BUFFER_SIZE NUL @ [spare], bufferIndex = 0,
      data = d, ctsPin = 0xFF, ctsHigh = False, pins = []\<rparr>"

definition P1Meter_serial_cts :: "char \<Rightarrow> P1Data \<Rightarrow> 8 word \<Rightarrow> P1Meter" where
  "P1Meter_serial_cts spare d pin = (P1Meter_serial spare d)\<lparr>ctsPin := pin\<rparr>"

text \<open>A reading whose members are all zero, as the members of an object with static
  storage are before its constructor runs.\<close>

definition zero_log :: PowerFailureLogStruct where
  "zero_log = \<lparr>DateTime_log = replicate 14 NUL, Duration = []\<rparr>"

definition zero_device :: MBusDevice where
  "zero_device =
     \<lparr>DeviceType = Unlisted 0, EquipmentID_mbus = [],
      Reading = \<lparr>DateTime_mbus = replicate 14 NUL, Value = 0, Unit = replicate 4 NUL\<rparr>\<rparr>"

definition zero_data :: P1Data where
  "zero_data =
     \<lparr>HeaderInfo = [], P1Version = 0, DateTime = replicate 14 NUL, EquipmentID = [],
      DeliveredTariff1 = 0, DeliveredTariff2 = 0, ProducedTariff1 = 0, ProducedTariff2 = 0,
      CurrentTariff = 0, ActualDelivered = 0, ActualProduced = 0,
      PowerFailures = 0, LongPowerFailures = 0,
      PowerFailureLogs = [zero_log, zero_log, zero_log],
      VoltageSags = [0, 0, 0], VoltageSwells = [0, 0, 0], TextMessage = [],
      Voltage = [0, 0, 0], Current = [0, 0, 0],
      PowerDelivered = [0, 0, 0], PowerProduced = [0, 0, 0],
      MBusDevices = [zero_device, zero_device, zero_device],
      CRC = 0, ValidCRC = False, NumberOfMBusDevices = 0\<rparr>"

section \<open>The checksum\<close>

text \<open>One byte of the outer loop of \<open>CRC16_IBM_REVERSED\<close>, and the loop as a fold
  over the bytes it reads.\<close>

definition crc_byte :: "bool \<Rightarrow> 16 word \<Rightarrow> char \<Rightarrow> 16 word" where
  "crc_byte sc crc c = crc_bits 8 (crc XOR widen_char sc c)"

lemma crc_loop_foldl:
  "len \<le> length buf \<Longrightarrow> pos \<le> len \<Longrightarrow>
   crc_loop sc buf len pos crc =
     Inr (foldl (crc_byte sc) crc (take (len - pos) (drop pos buf)))"
proof (induction sc buf len pos crc rule: crc_loop.induct)
  case (1 sc buf len pos crc)
  show ?case
  proof (cases "pos < len")
    case False
    then show ?thesis using 1(3) by (simp add: crc_loop.simps)
  next
    case True
    then have lt: "pos < length buf" using 1(2) by simp
    have d: "drop pos buf = buf ! pos # drop (Suc pos) buf"
      using lt by (simp add: Cons_nth_drop_Suc)
    have t: "len - pos = Suc (len - Suc pos)" using True by simp
    have cb: "crc_byte sc crc (buf ! pos) = crc_bits 8 (crc XOR widen_char sc (buf ! pos))"
      by (simp add: crc_byte_def)
    have step: "crc_loop sc buf len pos crc =
            crc_loop sc buf len (Suc pos) (crc_bits 8 (crc XOR widen_char sc (buf ! pos)))"
      using True lt by (simp add: crc_loop.simps[of sc buf len pos])
    have ih: "crc_loop sc buf len (Suc pos) (crc_bits 8 (crc XOR widen_char sc (buf ! pos))) =
            Inr (foldl (crc_byte sc) (crc_bits 8 (crc XOR widen_char sc (buf ! pos)))
                   (take (len - (Suc pos)) (drop (Suc pos) buf)))"
      using 1(1)[OF True lt 1(2)] True by simp
    show ?thesis
      by (simp add: step ih d t cb)
  qed
qed

lemma CRC16_foldl:
  "len \<le> length buf \<Longrightarrow>
   CRC16_IBM_REVERSED sc buf len = Inr (foldl (crc_byte sc) 0 (take len buf))"
  by (simp add: CRC16_IBM_REVERSED_def crc_loop_foldl)

lemma low_bit: "(x AND 1 \<noteq> 0) = bit (x :: 16 word) 0"
  by (simp add: and_one_eq bit_0 mod_2_eq_odd)

lemma crc_shift_spec: "crc_shift = spec_crc_step"
  by (rule ext) (simp add: crc_shift_def spec_crc_step_def low_bit POLYNOMIAL_IBM_REVERSED_def)

lemma crc_bits_funpow: "crc_bits i crc = (crc_shift ^^ i) crc"
  by (induction i arbitrary: crc) (simp_all add: funpow_swap1)

lemma take_bit_of_char: "take_bit 8 (of_char c :: 16 word) = of_char c"
proof -
  have "(of_char c :: 16 word) = of_nat (of_char c)"
    by (simp add: of_nat_of_char)
  moreover have "take_bit 8 (of_nat (of_char c) :: 16 word) = of_nat (take_bit 8 (of_char c :: nat))"
    by (simp add: take_bit_of_nat)
  moreover have "take_bit 8 (of_char c :: nat) = of_char c"
    by (simp add: take_bit_nat_eq_self_iff)
  ultimately show ?thesis by simp
qed

lemma bit_of_char_word: "bit (of_char c :: 16 word) n \<Longrightarrow> n < 8"
proof -
  assume "bit (of_char c :: 16 word) n"
  then have "bit (take_bit 8 (of_char c :: 16 word)) n"
    by (simp add: take_bit_of_char)
  then show "n < 8"
    by (simp add: bit_take_bit_iff)
qed

lemma high_byte_mask: "(0xFF00 :: 16 word) = push_bit 8 (mask 8)"
  by (simp add: mask_eq_exp_minus_1)

lemma low_byte_mask: "(0x00FF :: 16 word) = mask 8"
  by (simp add: mask_eq_exp_minus_1)

lemma low_byte_xor:
  "((crc AND 0xFF00) OR ((crc XOR of_char c) AND 0x00FF)) = (crc XOR of_char c :: 16 word)"
proof (rule bit_word_eqI)
  fix n
  assume "n < LENGTH(16)"
  then show "bit ((crc AND 0xFF00) OR ((crc XOR of_char c) AND 0x00FF)) n
             = bit (crc XOR of_char c) n"
    unfolding high_byte_mask low_byte_mask
    using bit_of_char_word[of c n]
    by (auto simp add: bit_simps)
qed

text \<open>Where \<open>char\<close> is unsigned, and on every target for bytes below 128, a byte of the
  loop is a byte of the reference.\<close>

lemma crc_byte_reference:
  "\<not> sc \<or> (of_char c :: nat) < 128 \<Longrightarrow> crc_byte sc crc c = spec_crc_byte crc c"
  by (auto simp add: crc_byte_def spec_crc_byte_def widen_char_def crc_bits_funpow
      crc_shift_spec low_byte_xor)

lemma foldl_crc_reference:
  "\<not> sc \<or> (\<forall>c \<in> set bs. (of_char c :: nat) < 128) \<Longrightarrow>
   foldl (crc_byte sc) crc bs = foldl spec_crc_byte crc bs"
  by (induction bs arbitrary: crc) (auto simp add: crc_byte_reference)

lemma CRC16_is_reference:
  assumes "len \<le> length buf"
    and "\<not> sc \<or> (\<forall>c \<in> set (take len buf). (of_char c :: nat) < 128)"
  shows "CRC16_IBM_REVERSED sc buf len = Inr (spec_crc16 (take len buf))"
  using assms by (simp add: CRC16_foldl spec_crc16_def foldl_crc_reference)

lemma crc_bits_8:
  "crc_bits 8 crc =
     crc_shift (crc_shift (crc_shift (crc_shift
       (crc_shift (crc_shift (crc_shift (crc_shift crc)))))))"
  by (simp add: eval_nat_numeral)

lemma spec_crc_step_8:
  "(spec_crc_step ^^ 8) crc =
     spec_crc_step (spec_crc_step (spec_crc_step (spec_crc_step
       (spec_crc_step (spec_crc_step (spec_crc_step (spec_crc_step crc)))))))"
  by (simp add: eval_nat_numeral funpow_swap1)

text \<open>
  C2. The claim: for every byte sequence, \<open>CRC16_IBM_REVERSED\<close> returns the reference
  reversed CRC-16 (polynomial 0xA001, initial value 0), each byte being XORed into the low
  byte of the running value and the high byte left alone by that XOR. Here the function
  is run on the one byte 0x80 on a target whose \<open>char\<close> is signed: the conversion
  \<open>(uint16_t)buf[pos]\<close> sign-extends the byte to 0xFF80, the XOR changes the high byte
  too, and the result 0xA0FE is not the reference value 0xA001. The source's own comment
  on that line is "XOR byte into least sig. byte of crc".
\<close>

theorem CRC16_signed_char_high_byte:
  "CRC16_IBM_REVERSED True [CHR 0x80] 1 = Inr 0xA0FE \<and> spec_crc16 [CHR 0x80] = 0xA001"
  by (simp add: CRC16_IBM_REVERSED_def crc_loop.simps widen_char_def crc_bits_8
      crc_shift_def POLYNOMIAL_IBM_REVERSED_def spec_crc16_def spec_crc_byte_def
      spec_crc_step_8 spec_crc_step_def)

section \<open>Running the parser on a buffer\<close>

text \<open>A received telegram is followed in the buffer by the NULs that \<open>memset\<close> left.
  These facts let the simplifier run the library functions up to those NULs.\<close>

lemma window_id: "length b \<le> BUFFER_SIZE + 1 \<Longrightarrow> window b = b"
  by (simp add: window_def)

lemma replicate_pos: "0 < n \<Longrightarrow> replicate n x = x # replicate (n - 1) x"
  by (cases n) simp_all

lemma strchr_from_zeros:
  "0 < n \<Longrightarrow> strchr_from (replicate n NUL) c k = Inr (if c = NUL then Some k else None)"
  by (subst replicate_pos) simp_all

lemma strrchr_from_zeros:
  "0 < n \<Longrightarrow>
   strrchr_from (replicate n NUL) c k found = Inr (if c = NUL then Some k else found)"
  by (subst replicate_pos) simp_all

lemma bnd_weak_cong: "m = m' \<Longrightarrow> bnd m f = bnd m' f"
  by simp

lemma strncmp_eq_zeros:
  "0 < n \<Longrightarrow> f \<noteq> NUL \<Longrightarrow> strncmp_eq (replicate n NUL) (f # fs) = Inr False"
  by (subst replicate_pos) simp_all

lemma strncpy_src_zeros: "0 < n \<Longrightarrow> strncpy_src (replicate n NUL) k = Inr (replicate k NUL)"
  by (cases k; subst replicate_pos) simp_all

lemma c_string_zeros: "0 < n \<Longrightarrow> c_string (replicate n NUL) = Inr []"
  by (subst replicate_pos) simp_all

lemma strtoul_zeros: "0 < n \<Longrightarrow> strtoul (replicate n NUL) base = Inr 0"
  apply (subst replicate_pos, simp)
  apply (cases "n - 1")
   apply (simp_all add: strtoul_def isspace_def skip_sign_def skip_prefix_def digit_of_def)
  done

lemma strncpy_src_numeral:
  "strncpy_src (x # xs) (numeral k) =
     (if x = NUL then Inr (replicate (numeral k) NUL)
      else (case strncpy_src xs (pred_numeral k) of
              Inl f \<Rightarrow> Inl f
            | Inr ys \<Rightarrow> Inr (x # ys)))"
  by (simp add: numeral_eq_Suc)

lemmas run_buffer = lastIndexOf_def indexOf_def at_offset_def window_id BUFFER_SIZE_def
  u16_def i16_def startsWith_def getSubString_def clear_buffer_def store_def
  strchr_def strrchr_def strchr_from_zeros strrchr_from_zeros strncmp_eq_zeros
  strncpy_src_zeros c_string_zeros strtoul_zeros strncpy_src_numeral

lemmas run_number = strtoul_def isspace_def digit_of_def skip_sign_def skip_prefix_def
  strtod_def read_number_def read_mantissa_def read_exponent_def read_nan_tail_def
  to_lower_def is_digit10_def is_digit16_def is_nchar_def

lemmas run_line = decode_line_def branches_def fixed_value_def paren_ulong_def
  paren_chars_def paren_text_def power_log_def power_log_loop.simps device_number_def
  on_device_def device_value_def device_magnitude_def device_unit_def
  to_EMBusDeviceType_def Let_def

lemmas run_crc = check_crc_def calcCRC16_def CRC16_IBM_REVERSED_def crc_loop.simps
  crc_bits_8 crc_shift_def POLYNOMIAL_IBM_REVERSED_def widen_char_def

section \<open>Which branch of the chain is taken\<close>

text \<open>What the branch taken establishes, the chain establishes; and a branch whose
  condition an earlier branch has is never taken.\<close>

lemma first_match_frame:
  assumes "first_match b s rs d = Inr d'"
    and "\<And>code delta assign. (code, delta, assign) \<in> set rs \<Longrightarrow>
           startsWith b code (s + delta) = Inr True \<Longrightarrow> assign d = Inr d' \<Longrightarrow> P d'"
    and "P d"
  shows "P d'"
  using assms
proof (induction rs)
  case Nil
  then show ?case by simp
next
  case (Cons r rs)
  obtain code delta assign where r: "r = (code, delta, assign)"
    by (cases r)
  from Cons.prems(1) obtain hit where hit: "startsWith b code (s + delta) = Inr hit"
    and rest: "(if hit then assign d else first_match b s rs d) = Inr d'"
    by (auto simp: r bnd_eq_Inr)
  show ?case
  proof (cases hit)
    case True
    then show ?thesis using Cons.prems(2)[of code delta assign] hit rest r by simp
  next
    case False
    then have "first_match b s rs d = Inr d'" using rest by simp
    then show ?thesis using Cons.IH Cons.prems(2,3) by auto
  qed
qed

fun live :: "(string \<times> int) list \<Rightarrow> branch list \<Rightarrow> branch list" where
  "live seen [] = []"
| "live seen ((code, delta, assign) # rs) =
     (if (code, delta) \<in> set seen then live seen rs
      else (code, delta, assign) # live ((code, delta) # seen) rs)"

lemma first_match_live:
  "(\<And>code delta. (code, delta) \<in> set seen \<Longrightarrow>
      startsWith b code (s + delta) = Inr False) \<Longrightarrow>
   first_match b s rs d = first_match b s (live seen rs) d"
proof (induction rs arbitrary: seen)
  case Nil
  then show ?case by simp
next
  case (Cons r rs)
  obtain code delta assign where r: "r = (code, delta, assign)"
    by (cases r)
  show ?case
  proof (cases "(code, delta) \<in> set seen")
    case True
    then have "startsWith b code (s + delta) = Inr False"
      using Cons.prems by blast
    then show ?thesis using True Cons.IH[of seen] Cons.prems by (simp add: r)
  next
    case False
    show ?thesis
    proof (cases "startsWith b code (s + delta)")
      case (Inl f)
      then show ?thesis using False by (simp add: r)
    next
      case (Inr hit)
      show ?thesis
      proof (cases hit)
        case True
        then show ?thesis using False Inr by (simp add: r)
      next
        case nohit: False
        have "first_match b s rs d = first_match b s (live ((code, delta) # seen) rs) d"
          using Cons.prems Inr nohit by (intro Cons.IH) auto
        then show ?thesis using False Inr nohit by (simp add: r)
      qed
    qed
  qed
qed

lemma decode_line_live:
  "decode_line b s e d = first_match b s (live [] (branches b s e)) d"
  unfolding decode_line_def by (rule first_match_live) simp

section \<open>The per-phase produced power\<close>

lemma on_device_PowerProduced:
  "on_device d i f = Inr d' \<Longrightarrow> PowerProduced d' = PowerProduced d"
  by (auto simp: on_device_def bnd_eq_Inr split: if_splits)

lemma power_log_loop_PowerProduced:
  "power_log_loop b n i x d = Inr d' \<Longrightarrow> PowerProduced d' = PowerProduced d"
proof (induction b n i x d rule: power_log_loop.induct)
  case (1 b n i x d)
  show ?case
  proof (cases "i < n")
    case False
    then show ?thesis using 1(2) by (simp add: power_log_loop.simps)
  next
    case True
    from 1(2) True obtain r1 p1 stamp dt r2 p2 dur where
      a: "indexOf b (CHR ''('') (x + 1) = Inr r1" "at_offset b (u16 r1 + 1) = Inr p1"
         "strncpy_src p1 13 = Inr stamp" "\<not> length (PowerFailureLogs d) \<le> i"
         "store (DateTime_log (PowerFailureLogs d ! i)) 0 stamp = Inr dt"
         "indexOf b (CHR ''('') (u16 r1 + 1) = Inr r2" "at_offset b (u16 r2 + 1) = Inr p2"
         "strtod p2 = Inr dur"
         "power_log_loop b n (i + 1) (u16 r2)
            (d\<lparr>PowerFailureLogs :=
                 (PowerFailureLogs d)[i := \<lparr>DateTime_log = dt, Duration = dur\<rparr>]\<rparr>) = Inr d'"
      by (subst (asm) power_log_loop.simps) (auto simp: bnd_eq_Inr split: if_splits)
    from 1(1)[OF True a(1,2,3,4,5,6,7,8,9)] show ?thesis by simp
  qed
qed

lemma power_log_PowerProduced:
  "power_log b s d = Inr d' \<Longrightarrow> PowerProduced d' = PowerProduced d"
  by (auto simp: power_log_def bnd_eq_Inr Let_def dest: power_log_loop_PowerProduced)

lemma device_value_PowerProduced:
  assumes "device_value b s d = Inr d'"
  shows "PowerProduced d' = PowerProduced d"
proof -
  from assms obtain n d1 d2 f1 f2 f3 where
    "on_device d n f1 = Inr d1" "on_device d1 n f2 = Inr d2" "on_device d2 n f3 = Inr d'"
    unfolding device_value_def bnd_eq_Inr by blast
  then show ?thesis using on_device_PowerProduced by metis
qed

text \<open>No line changes \<open>PowerProduced\<close>: the three branches that assign to it repeat
  the conditions of the \<open>PowerDelivered\<close> branches before them, and the codes
  \<open>OBIS_POWER_NEG_L1\<close>, \<open>L2\<close> and \<open>L3\<close> are compared nowhere.\<close>

lemma decode_line_PowerProduced:
  assumes "decode_line b s e d = Inr d'"
  shows "PowerProduced d' = PowerProduced d"
proof -
  have "first_match b s (live [] (branches b s e)) d = Inr d'"
    using assms by (simp add: decode_line_live)
  then show ?thesis
  proof (rule first_match_frame)
    fix code delta assign
    assume "(code, delta, assign) \<in> set (live [] (branches b s e))" and "assign d = Inr d'"
    then show "PowerProduced d' = PowerProduced d"
      by (auto simp: branches_def bnd_eq_Inr
          dest: on_device_PowerProduced power_log_PowerProduced device_value_PowerProduced)
  qed simp
qed

lemma parse_lines_PowerProduced:
  "parse_lines b bi e d = Inr d' \<Longrightarrow> PowerProduced d' = PowerProduced d"
proof (induction b bi e d rule: parse_lines.induct)
  case (1 b bufIndex endOfLine d)
  show ?case
  proof (cases "endOfLine < bufIndex \<and> endOfLine \<noteq> - 1")
    case False
    then show ?thesis using 1(2) by (subst (asm) parse_lines.simps) auto
  next
    case True
    from 1(2) True obtain e' d1 where
      a: "indexOf b LF (i16 (endOfLine + 1) + 1) = Inr e'"
         "decode_line b (i16 (endOfLine + 1)) e' d = Inr d1"
         "parse_lines b bufIndex e' d1 = Inr d'"
      by (subst (asm) parse_lines.simps) (auto simp: bnd_eq_Inr)
    from 1(1)[OF True a] decode_line_PowerProduced[OF a(2)] show ?thesis by simp
  qed
qed

lemma ProcessTelegram_PowerProduced:
  assumes "ProcessTelegram sc m = Inr (d, m')"
  shows "PowerProduced d = PowerProduced (data m)"
proof -
  from assms obtain d0 where d0: "read_fields m = Inr d0"
    and d: "PowerProduced d = PowerProduced d0"
    by (auto simp: ProcessTelegram_def bnd_eq_Inr Let_def)
  from d0 obtain e n h where
    "parse_lines (buffer m) (bufferIndex m) e
       ((data m)\<lparr>NumberOfMBusDevices := n, HeaderInfo := h\<rparr>) = Inr d0"
    by (auto simp: read_fields_def bnd_eq_Inr Let_def)
  from parse_lines_PowerProduced[OF this] d show ?thesis by simp
qed

section \<open>The library functions on a buffer of known content\<close>

lemma u16_id: "0 \<le> x \<Longrightarrow> x < 65536 \<Longrightarrow> u16 x = x"
  by (simp add: u16_def)

lemma at_offset_append:
  "window b = pre @ p \<Longrightarrow> int (length pre) = off \<Longrightarrow> off \<le> int BUFFER_SIZE \<Longrightarrow>
   at_offset b off = Inr p"
  by (auto simp: at_offset_def)

lemma strchr_from_found:
  "c \<notin> set mid \<Longrightarrow> NUL \<notin> set mid \<Longrightarrow>
   strchr_from (mid @ c # post) c k = Inr (Some (k + length mid))"
  by (induction mid arbitrary: k) auto

lemma strchr_from_none:
  "c \<notin> set mid \<Longrightarrow> NUL \<notin> set mid \<Longrightarrow> c \<noteq> NUL \<Longrightarrow>
   strchr_from (mid @ NUL # post) c k = Inr None"
  by (induction mid arbitrary: k) auto

lemma indexOf_found:
  assumes "window b = pre @ mid @ c # post" and "int (length pre) = st"
    and "c \<notin> set mid" and "NUL \<notin> set mid" and "st \<le> int BUFFER_SIZE"
  shows "indexOf b c st = Inr (st + int (length mid))"
proof -
  have i: "i16 st = st" using assms(2,5) by (simp add: i16_id BUFFER_SIZE_def)
  have "at_offset b st = Inr (mid @ c # post)"
    using assms by (intro at_offset_append[where pre = pre]) auto
  then show ?thesis
    using assms(3,4) by (simp add: indexOf_def i strchr_def strchr_from_found)
qed

lemma indexOf_none:
  assumes "window b = pre @ mid @ NUL # post" and "int (length pre) = st"
    and "c \<notin> set mid" and "NUL \<notin> set mid" and "c \<noteq> NUL" and "st \<le> int BUFFER_SIZE"
  shows "indexOf b c st = Inr (- 1)"
proof -
  have i: "i16 st = st" using assms(2,6) by (simp add: i16_id BUFFER_SIZE_def)
  have "at_offset b st = Inr (mid @ NUL # post)"
    using assms by (intro at_offset_append[where pre = pre]) auto
  then show ?thesis
    using assms(3,4,5) by (simp add: indexOf_def i strchr_def strchr_from_none)
qed

lemma startsWith_suffix:
  "at_offset b (u16 off) = Inr p \<Longrightarrow> startsWith b code off = strncmp_eq p code"
  by (simp add: startsWith_def)

lemma strncmp_eq_prefix: "strncmp_eq (code @ rest) code = Inr True"
  by (induction code) auto

lemma strncmp_eq_True: "strncmp_eq p code = Inr True \<Longrightarrow> take (length code) p = code"
proof (induction p code rule: strncmp_eq.induct)
  case (3 x xs f fs)
  then show ?case by (auto split: if_splits)
qed auto

lemma strncpy_src_exact:
  "NUL \<notin> set ys \<Longrightarrow> strncpy_src (ys @ rest) (length ys) = Inr ys"
  by (induction ys) auto

text \<open>Digits of a base, as \<open>strtoul\<close> reads them, and the number they write.\<close>

definition digits_in :: "int \<Rightarrow> char list \<Rightarrow> bool" where
  "digits_in base ds \<longleftrightarrow> (\<forall>c \<in> set ds. \<exists>v. digit_of c = Some v \<and> v < base)"

definition number_in :: "int \<Rightarrow> char list \<Rightarrow> int" where
  "number_in base ds = foldl (\<lambda>a c. a * base + the (digit_of c)) 0 ds"

lemma read_digits_run:
  assumes "digits_in base ds" and "case digit_of x of None \<Rightarrow> True | Some v \<Rightarrow> \<not> v < base"
  shows "read_digits base (ds @ x # rest) acc =
         Inr (foldl (\<lambda>a c. a * base + the (digit_of c)) acc ds)"
  using assms
proof (induction ds arbitrary: acc)
  case Nil
  then show ?case by (auto split: option.splits)
next
  case (Cons d ds)
  then obtain v where "digit_of d = Some v" "v < base" by (auto simp: digits_in_def)
  moreover have "digits_in base ds" using Cons.prems(1) by (simp add: digits_in_def)
  ultimately show ?case using Cons.IH[OF _ Cons.prems(2)] by simp
qed

lemma digit_not_space: "digit_of c = Some v \<Longrightarrow> \<not> isspace c"
  by (auto simp: digit_of_def isspace_def Let_def split: if_splits)

lemma digit_not_sign: "digit_of c = Some v \<Longrightarrow> c \<noteq> CHR ''-'' \<and> c \<noteq> CHR ''+''"
  by (auto simp: digit_of_def Let_def split: if_splits)

lemma digit_of_NUL: "digit_of NUL = None"
  by (simp add: digit_of_def)

lemma NUL_not_space: "\<not> isspace NUL"
  by (simp add: isspace_def)

lemma strtoul_digits:
  assumes "digits_in base ds" and "ds \<noteq> []" and "base = 10 \<or> base = 16"
    and "number_in base ds \<le> 4294967295"
    and "base = 16 \<Longrightarrow> 2 \<le> length ds \<Longrightarrow> digit_of (ds ! 1) \<noteq> None \<and> the (digit_of (ds ! 1)) < 16"
  shows "strtoul (ds @ NUL # rest) base = Inr (word_of_int (number_in base ds))"
proof -
  obtain d ds' where ds: "ds = d # ds'" using assms(2) by (cases ds) auto
  obtain v where v: "digit_of d = Some v" using assms(1) ds by (auto simp: digits_in_def)
  have sp: "skip_space (ds @ NUL # rest) = Inr (ds @ NUL # rest)"
    using digit_not_space[OF v] by (simp add: ds)
  have sg: "skip_sign (ds @ NUL # rest) = (False, ds @ NUL # rest)"
    using digit_not_sign[OF v] by (simp add: ds skip_sign_def)
  have x: "digit_of CHR ''x'' = Some 33" "digit_of CHR ''X'' = Some 33"
    by (simp_all add: digit_of_def)
  have px: "skip_prefix base (ds @ NUL # rest) = ds @ NUL # rest"
  proof (cases ds')
    case Nil
    then show ?thesis by (simp add: ds skip_prefix_def)
  next
    case (Cons e es)
    show ?thesis
    proof (cases "base = 16")
      case True
      have "digit_of e \<noteq> None \<and> the (digit_of e) < 16" using assms(5)[OF True] ds Cons by simp
      then have "e \<noteq> CHR ''x'' \<and> e \<noteq> CHR ''X''" using x by auto
      then show ?thesis by (simp add: ds Cons skip_prefix_def)
    next
      case False
      then show ?thesis by (simp add: ds Cons skip_prefix_def)
    qed
  qed
  have rd: "read_digits base (ds @ NUL # rest) 0 = Inr (number_in base ds)"
    using read_digits_run[OF assms(1), of NUL rest 0] by (simp add: digit_of_NUL number_in_def)
  show ?thesis
    using assms(4) by (simp add: strtoul_def sp sg px rd)
qed


lemma digit_char_10: "digit_of c = Some v \<Longrightarrow> v < 10 \<Longrightarrow>
    c \<noteq> NUL \<and> c \<noteq> CHR ''.'' \<and> c \<noteq> CHR ''('' \<and> c \<noteq> LF"
  by (auto simp: digit_of_def Let_def split: if_splits)

lemma digits_in_10_not:
  "digits_in 10 ds \<Longrightarrow> NUL \<notin> set ds \<and> CHR ''.'' \<notin> set ds \<and> CHR ''('' \<notin> set ds \<and> LF \<notin> set ds"
  using digit_char_10 by (fastforce simp: digits_in_def)

lemma digits_in_append: "digits_in base (xs @ ys) \<longleftrightarrow> digits_in base xs \<and> digits_in base ys"
  by (auto simp: digits_in_def)

lemma foldl_digits_bound:
  assumes "digits_in base ds" and "0 < base" and "0 \<le> acc"
  shows "0 \<le> foldl (\<lambda>a c. a * base + the (digit_of c)) acc ds \<and>
         foldl (\<lambda>a c. a * base + the (digit_of c)) acc ds < (acc + 1) * base ^ length ds"
  using assms
proof (induction ds arbitrary: acc)
  case Nil
  then show ?case by simp
next
  case (Cons d ds)
  then obtain v where v: "digit_of d = Some v" "v < base" by (auto simp: digits_in_def)
  have v0: "0 \<le> v" using v(1) by (auto simp: digit_of_def Let_def split: if_splits)
  have ds: "digits_in base ds" using Cons.prems(1) by (simp add: digits_in_def)
  have a0: "0 \<le> acc * base + v" using Cons.prems v0 by simp
  from Cons.IH[OF ds Cons.prems(2) a0]
  have ih: "0 \<le> foldl (\<lambda>a c. a * base + the (digit_of c)) (acc * base + v) ds"
       "foldl (\<lambda>a c. a * base + the (digit_of c)) (acc * base + v) ds < (acc * base + v + 1) * base ^ length ds"
    by auto
  have "acc * base + v + 1 \<le> (acc + 1) * base" using v(2) by (simp add: algebra_simps)
  then have "(acc * base + v + 1) * base ^ length ds \<le> (acc + 1) * base * base ^ length ds"
    using Cons.prems(2) by (intro mult_right_mono) auto
  then show ?case using ih v by (simp add: mult.assoc)
qed

lemma number_in_bound:
  "digits_in base ds \<Longrightarrow> 0 < base \<Longrightarrow> 0 \<le> number_in base ds \<and> number_in base ds < base ^ length ds"
  using foldl_digits_bound[of base ds 0] by (simp add: number_in_def)

lemma store_start: "length ys \<le> n \<Longrightarrow> store (replicate n NUL) 0 ys = Inr (ys @ replicate (n - length ys) NUL)"
  by (simp add: store_def)

lemma store_after:
  "length xs + length ys \<le> length xs + k \<Longrightarrow>
   store (xs @ replicate k NUL) (length xs) ys = Inr (xs @ ys @ replicate (k - length ys) NUL)"
  by (simp add: store_def)

lemma fixed_value_text:
  assumes win: "window b = pre @ code @ CHR ''('' # W @ CHR ''.'' # F @ tail"
    and s: "int (length pre) = s"
    and code: "length code = 9 \<or> length code = 10" "CHR ''('' \<notin> set code" "NUL \<notin> set code"
    and W: "digits_in 10 W" "length W = w"
    and F: "digits_in 10 F" "length F = f"
    and wf: "w + f \<le> 9" "0 < w"
    and bound: "length pre + length code + w + f + 2 \<le> BUFFER_SIZE"
  shows "fixed_value b s w f = Inr (word_of_int (number_in 10 (W @ F)))"
proof -
  note nW = digits_in_10_not[OF W(1)] and nF = digits_in_10_not[OF F(1)]
  have open_paren: "indexOf b (CHR ''('') s = Inr (s + int (length code))"
    using win s code bound by (intro indexOf_found[where pre = pre and post = "W @ CHR ''.'' # F @ tail"]) auto
  have p1: "at_offset b (s + int (length code) + 1) = Inr (W @ CHR ''.'' # F @ tail)"
    using win s bound by (intro at_offset_append[where pre = "pre @ code @ [CHR ''('']"]) auto
  have whole: "strncpy_src (W @ CHR ''.'' # F @ tail) w = Inr W"
    using strncpy_src_exact[of W] nW W(2) by simp
  have pc: "paren_chars b s w = Inr W"
    by (simp add: paren_chars_def open_paren p1 whole)
  have vb1: "store (replicate 10 NUL) 0 W = Inr (W @ replicate (10 - w) NUL)"
    using wf W(2) by (simp add: store_start)
  have dot: "indexOf b (CHR ''.'') (s + 10) = Inr (s + int (length code) + 1 + int w)"
  proof (cases "length code = 9")
    case True
    have "indexOf b (CHR ''.'') (s + 10) = Inr (s + 10 + int (length W))"
      using win s True nW bound
      by (intro indexOf_found[where pre = "pre @ code @ [CHR ''('']" and post = "F @ tail"]) auto
    then show ?thesis using True W(2) by simp
  next
    case False
    then have l: "length code = 10" using code(1) by simp
    have "indexOf b (CHR ''.'') (s + 10) = Inr (s + 10 + int (length (CHR ''('' # W)))"
      using win s l nW bound
      by (intro indexOf_found[where pre = "pre @ code" and post = "F @ tail"]) auto
    then show ?thesis using l W(2) by simp
  qed
  have p2: "at_offset b (s + int (length code) + 1 + int w + 1) = Inr (F @ tail)"
    using win s bound W(2)
    by (intro at_offset_append[where pre = "pre @ code @ CHR ''('' # W @ [CHR ''.'']"]) auto
  have frac: "strncpy_src (F @ tail) f = Inr F"
    using strncpy_src_exact[of F] nF F(2) by simp
  have vb2: "store (W @ replicate (10 - w) NUL) w F = Inr (W @ F @ replicate (10 - w - f) NUL)"
    using store_after[of W F "10 - w"] W(2) F(2) wf by simp
  have rep: "replicate (10 - w - f) NUL = NUL # replicate (9 - w - f) NUL"
    using wf by (subst replicate_pos) auto
  have num: "number_in 10 (W @ F) \<le> 4294967295"
  proof -
    have "number_in 10 (W @ F) < 10 ^ length (W @ F)"
      using number_in_bound[of 10 "W @ F"] W(1) F(1) by (simp add: digits_in_append)
    also have "\<dots> \<le> (10 :: int) ^ 9"
      using wf W(2) F(2) by (intro power_increasing) auto
    finally show ?thesis by simp
  qed
  have st: "strtoul (W @ F @ replicate (10 - w - f) NUL) 10 = Inr (word_of_int (number_in 10 (W @ F)))"
  proof -
    have ne: "W @ F \<noteq> []" using wf W(2) by auto
    have d: "digits_in 10 (W @ F)" using W(1) F(1) by (simp add: digits_in_append)
    have "strtoul ((W @ F) @ NUL # replicate (9 - w - f) NUL) 10 =
            Inr (word_of_int (number_in 10 (W @ F)))"
      using d ne num by (intro strtoul_digits) auto
    then show ?thesis by (simp only: rep append_assoc)
  qed
  show ?thesis
    by (simp only: fixed_value_def pc vb1 dot p2 frac vb2 st bnd_Inr)
qed

section \<open>Decoding the lines of a telegram\<close>

definition main_codes :: "string list" where
  "main_codes =
     [OBIS_VERSION, OBIS_DATETIME, OBIS_EQUIPMENTID, OBIS_TARIFF1_DELIVERED,
      OBIS_TARIFF2_DELIVERED, OBIS_TARIFF1_PRODUCED, OBIS_TARIFF2_PRODUCED,
      OBIS_TARIFF_INDICATOR, OBIS_ACTUAL_DELIVERED, OBIS_ACTUAL_PRODUCED,
      OBIS_NUMBER_POWER_FAIL, OBIS_LONG_POWER_FAIL, OBIS_POWER_LOG,
      OBIS_NUM_VOLTAGE_SAG_L1, OBIS_NUM_VOLTAGE_SAG_L2, OBIS_NUM_VOLTAGE_SAG_L3,
      OBIS_NUM_VOLTAGE_SWL_L1, OBIS_NUM_VOLTAGE_SWL_L2, OBIS_NUM_VOLTAGE_SWL_L3,
      OBIS_TEXT_MESSAGE, OBIS_VOLTAGE_L1, OBIS_VOLTAGE_L2, OBIS_VOLTAGE_L3,
      OBIS_CURRENT_L1, OBIS_CURRENT_L2, OBIS_CURRENT_L3,
      OBIS_POWER_POS_L1, OBIS_POWER_POS_L2, OBIS_POWER_POS_L3]"

definition device_codes :: "string list" where
  "device_codes = [OBIS_DEVICE_TYPE, OBIS_EQUIPMENT_IDENT, OBIS_DEVICE_VALUE]"

lemma first_match_none:
  "(\<And>code delta assign. (code, delta, assign) \<in> set rs \<Longrightarrow>
      startsWith b code (s + delta) = Inr False) \<Longrightarrow>
   first_match b s rs d = Inr d"
proof (induction rs)
  case Nil
  then show ?case by simp
next
  case (Cons r rs)
  obtain code delta assign where r: "r = (code, delta, assign)" by (cases r)
  have "startsWith b code (s + delta) = Inr False" using Cons.prems[of code delta assign] r by simp
  moreover have "first_match b s rs d = Inr d" using Cons.IH Cons.prems by auto
  ultimately show ?case by (simp add: r)
qed

lemma decode_line_unmatched:
  assumes p: "at_offset b (u16 s) = Inr p" and q: "at_offset b (u16 (s + 3)) = Inr q"
    and mp: "list_all (\<lambda>c. strncmp_eq p c = Inr False) main_codes"
    and mq: "list_all (\<lambda>c. strncmp_eq q c = Inr False) device_codes"
  shows "decode_line b s e d = Inr d"
  unfolding decode_line_def
proof (rule first_match_none)
  fix code delta assign
  assume "(code, delta, assign) \<in> set (branches b s e)"
  then have "(delta = 0 \<and> code \<in> set main_codes) \<or> (delta = 3 \<and> code \<in> set device_codes)"
    by (auto simp: branches_def main_codes_def device_codes_def)
  then show "startsWith b code (s + delta) = Inr False"
    using mp mq startsWith_suffix[OF p] startsWith_suffix[OF q]
    by (auto simp: list_all_iff)
qed

lemma decode_line_tariff1:
  assumes p: "at_offset b (u16 s) = Inr (OBIS_TARIFF1_DELIVERED @ rest)"
  shows "decode_line b s e d =
         bnd (fixed_value b s 6 3) (\<lambda>v. Inr (d\<lparr>DeliveredTariff1 := v\<rparr>))"
proof -
  have sw: "\<And>code. startsWith b code s = strncmp_eq (OBIS_TARIFF1_DELIVERED @ rest) code"
    using startsWith_suffix[OF p] by simp
  show ?thesis
    by (simp add: decode_line_def branches_def sw)
qed

lemma decode_line_power_log:
  assumes p: "at_offset b (u16 s) = Inr (OBIS_POWER_LOG @ rest)"
  shows "decode_line b s e d = power_log b s d"
proof -
  have sw: "\<And>code. startsWith b code s = strncmp_eq (OBIS_POWER_LOG @ rest) code"
    using startsWith_suffix[OF p] by simp
  show ?thesis
    by (simp add: decode_line_def branches_def sw)
qed

text \<open>lines\<close>

definition text_line :: "char list \<Rightarrow> bool" where
  "text_line l \<longleftrightarrow>
     2 \<le> length l \<and> last l = LF \<and> LF \<notin> set (butlast (tl l)) \<and> NUL \<notin> set (butlast (tl l))"

lemma text_line_split:
  assumes "text_line l"
  obtains x mid where "l = x # mid @ [LF]" "LF \<notin> set mid" "NUL \<notin> set mid"
proof -
  from assms have len: "2 \<le> length l" by (simp add: text_line_def)
  then obtain x xs where l: "l = x # xs" by (cases l) auto
  have xs: "xs \<noteq> []" using len l by auto
  have "xs = butlast xs @ [last xs]" using xs by simp
  moreover have "last xs = LF" using assms l xs by (simp add: text_line_def)
  ultimately have "l = x # butlast xs @ [LF]" using l by simp
  moreover have "LF \<notin> set (butlast xs)" "NUL \<notin> set (butlast xs)"
    using assms l by (simp_all add: text_line_def)
  ultimately show ?thesis using that by blast
qed

lemma parse_lines_step:
  assumes win: "window b = pre @ l @ rest" and l: "text_line l"
    and e: "int (length pre) = e + 1" and e0: "0 \<le> e" and bi: "e < bi"
    and bound: "length pre + length l \<le> BUFFER_SIZE + 1"
  shows "parse_lines b bi e d =
         bnd (decode_line b (e + 1) (e + int (length l)) d) (\<lambda>d'.
           parse_lines b bi (e + int (length l)) d')"
proof -
  from l obtain x mid where lx: "l = x # mid @ [LF]" and mid: "LF \<notin> set mid" "NUL \<notin> set mid"
    by (rule text_line_split)
  have s: "i16 (e + 1) = e + 1"
    using e bound by (intro i16_id) (auto simp: BUFFER_SIZE_def)
  have "indexOf b LF (e + 1 + 1) = Inr (e + 1 + 1 + int (length mid))"
    using win e mid bound
    by (intro indexOf_found[where pre = "pre @ [x]" and post = rest]) (auto simp: lx)
  then have ix: "indexOf b LF (e + 1 + 1) = Inr (e + int (length l))"
    by (simp add: lx)
  have c: "(e < bi \<and> e \<noteq> - 1) = True"
    using bi e0 by simp
  show ?thesis
    by (subst parse_lines.simps) (simp only: c if_True ix s bnd_Inr)
qed

lemma parse_lines_stop: "\<not> e < bi \<or> e = - 1 \<Longrightarrow> parse_lines b bi e d = Inr d"
  by (subst parse_lines.simps) auto


lemma tariff1_line:
  assumes win: "window b = pre @ OBIS_TARIFF1_DELIVERED @ CHR ''('' # W @ CHR ''.'' # F @ tail"
    and s: "int (length pre) = s"
    and W: "digits_in 10 W" "length W = 6"
    and F: "digits_in 10 F" "length F = 3"
    and bound: "length pre + 20 \<le> BUFFER_SIZE"
  shows "decode_line b s e d =
         Inr (d\<lparr>DeliveredTariff1 := word_of_int (number_in 10 (W @ F))\<rparr>)"
proof -
  have u: "u16 s = s" using s bound by (intro u16_id) (auto simp: BUFFER_SIZE_def)
  have p: "at_offset b (u16 s) =
           Inr (OBIS_TARIFF1_DELIVERED @ (CHR ''('' # W @ CHR ''.'' # F @ tail))"
    unfolding u using win s bound by (intro at_offset_append[where pre = pre]) auto
  have v: "fixed_value b s 6 3 = Inr (word_of_int (number_in 10 (W @ F)))"
    using win s W F bound
    by (intro fixed_value_text[where pre = pre and code = OBIS_TARIFF1_DELIVERED and tail = tail])
       auto
  show ?thesis
    by (simp only: decode_line_tariff1[OF p] v bnd_Inr)
qed

lemma on_device_DeliveredTariff1:
  "on_device d i f = Inr d' \<Longrightarrow> DeliveredTariff1 d' = DeliveredTariff1 d"
  by (auto simp: on_device_def bnd_eq_Inr split: if_splits)

lemma power_log_loop_DeliveredTariff1:
  "power_log_loop b n i x d = Inr d' \<Longrightarrow> DeliveredTariff1 d' = DeliveredTariff1 d"
proof (induction b n i x d rule: power_log_loop.induct)
  case (1 b n i x d)
  show ?case
  proof (cases "i < n")
    case False
    then show ?thesis using 1(2) by (simp add: power_log_loop.simps)
  next
    case True
    from 1(2) True obtain r1 p1 stamp dt r2 p2 dur where
      a: "indexOf b (CHR ''('') (x + 1) = Inr r1" "at_offset b (u16 r1 + 1) = Inr p1"
         "strncpy_src p1 13 = Inr stamp" "\<not> length (PowerFailureLogs d) \<le> i"
         "store (DateTime_log (PowerFailureLogs d ! i)) 0 stamp = Inr dt"
         "indexOf b (CHR ''('') (u16 r1 + 1) = Inr r2" "at_offset b (u16 r2 + 1) = Inr p2"
         "strtod p2 = Inr dur"
         "power_log_loop b n (i + 1) (u16 r2)
            (d\<lparr>PowerFailureLogs :=
                 (PowerFailureLogs d)[i := \<lparr>DateTime_log = dt, Duration = dur\<rparr>]\<rparr>) = Inr d'"
      by (subst (asm) power_log_loop.simps) (auto simp: bnd_eq_Inr split: if_splits)
    from 1(1)[OF True a(1,2,3,4,5,6,7,8,9)] show ?thesis by simp
  qed
qed

lemma power_log_DeliveredTariff1:
  "power_log b s d = Inr d' \<Longrightarrow> DeliveredTariff1 d' = DeliveredTariff1 d"
  by (auto simp: power_log_def bnd_eq_Inr Let_def dest: power_log_loop_DeliveredTariff1)

lemma device_value_DeliveredTariff1:
  assumes "device_value b s d = Inr d'"
  shows "DeliveredTariff1 d' = DeliveredTariff1 d"
proof -
  from assms obtain n d1 d2 f1 f2 f3 where
    "on_device d n f1 = Inr d1" "on_device d1 n f2 = Inr d2" "on_device d2 n f3 = Inr d'"
    unfolding device_value_def bnd_eq_Inr by blast
  then show ?thesis using on_device_DeliveredTariff1 by metis
qed

lemma decode_line_DeliveredTariff1:
  assumes "decode_line b s e d = Inr d'"
    and "startsWith b OBIS_TARIFF1_DELIVERED s \<noteq> Inr True"
  shows "DeliveredTariff1 d' = DeliveredTariff1 d"
proof -
  have "first_match b s (branches b s e) d = Inr d'"
    using assms(1) by (simp add: decode_line_def)
  then show ?thesis
  proof (rule first_match_frame)
    fix code delta assign
    assume "(code, delta, assign) \<in> set (branches b s e)"
      and "startsWith b code (s + delta) = Inr True" and "assign d = Inr d'"
    then show "DeliveredTariff1 d' = DeliveredTariff1 d"
      using assms(2)
      by (auto simp: branches_def bnd_eq_Inr
          dest: on_device_DeliveredTariff1 power_log_DeliveredTariff1
            device_value_DeliveredTariff1)
  qed simp
qed

lemma parse_lines_reach:
  assumes "parse_lines b bi e d = Inr dfin"
    and "window b = pre @ concat ls @ rest"
    and "\<forall>l \<in> set ls. text_line l"
    and "int (length pre) = e + 1" and "0 \<le> e"
    and "e + int (length (concat ls)) < bi"
    and "length pre + length (concat ls) \<le> BUFFER_SIZE + 1"
  shows "\<exists>d1. parse_lines b bi (e + int (length (concat ls))) d1 = Inr dfin"
  using assms
proof (induction ls arbitrary: pre e d)
  case Nil
  then show ?case by auto
next
  case (Cons l ls)
  have tl: "text_line l" using Cons.prems(3) by simp
  have l2: "2 \<le> length l" using tl by (simp add: text_line_def)
  have step: "parse_lines b bi e d =
         bnd (decode_line b (e + 1) (e + int (length l)) d) (\<lambda>d'.
           parse_lines b bi (e + int (length l)) d')"
    using Cons.prems
    by (intro parse_lines_step[where pre = pre and rest = "concat ls @ rest"]) auto
  with Cons.prems(1) obtain d' where d': "parse_lines b bi (e + int (length l)) d' = Inr dfin"
    by (auto simp: bnd_eq_Inr)
  have "\<exists>d1. parse_lines b bi (e + int (length l) + int (length (concat ls))) d1 = Inr dfin"
    using Cons.prems l2
    by (intro Cons.IH[OF d', where pre = "pre @ l"]) auto
  then show ?case by (simp add: add.assoc)
qed

lemma startsWith_True_take:
  assumes "startsWith b code s = Inr True" and "window b = pre @ p" and "int (length pre) = s"
    and "s \<le> int BUFFER_SIZE"
  shows "take (length code) p = code"
proof -
  have "u16 s = s" using assms(3,4) by (intro u16_id) (auto simp: BUFFER_SIZE_def)
  moreover have "at_offset b s = Inr p"
    using assms by (intro at_offset_append[where pre = pre]) auto
  ultimately have "strncmp_eq p code = Inr True"
    using assms(1) by (simp add: startsWith_def)
  then show ?thesis by (rule strncmp_eq_True)
qed

lemma code_prefix_line:
  assumes "take 9 (l @ X) = code" and "text_line l" and "LF \<notin> set code"
  shows "take 9 l = code"
proof (cases "9 \<le> length l")
  case True
  then show ?thesis using assms(1) by simp
next
  case False
  then have "code = l @ take (9 - length l) X" using assms(1) by simp
  moreover have "l \<noteq> []" "last l = LF" using assms(2) by (auto simp: text_line_def)
  ultimately have "LF \<in> set code" using last_in_set[of l] by auto
  then show ?thesis using assms(3) by simp
qed


lemma parse_lines_DeliveredTariff1:
  assumes "parse_lines b bi e d = Inr dfin"
    and "window b = pre @ concat ls @ rest"
    and "\<forall>l \<in> set ls. text_line l \<and> take 9 l \<noteq> OBIS_TARIFF1_DELIVERED"
    and "int (length pre) = e + 1" and "0 \<le> e"
    and "bi = e + int (length (concat ls))"
    and "length pre + length (concat ls) \<le> BUFFER_SIZE + 1"
  shows "DeliveredTariff1 dfin = DeliveredTariff1 d"
  using assms
proof (induction ls arbitrary: pre e d)
  case Nil
  then have "parse_lines b bi e d = Inr d" by (intro parse_lines_stop) simp
  then show ?case using Nil.prems(1) by simp
next
  case (Cons l ls)
  have tl: "text_line l" and np: "take 9 l \<noteq> OBIS_TARIFF1_DELIVERED"
    using Cons.prems(3) by simp_all
  have l2: "2 \<le> length l" using tl by (simp add: text_line_def)
  have win: "window b = pre @ l @ (concat ls @ rest)" using Cons.prems(2) by simp
  have bound: "length pre + length l \<le> BUFFER_SIZE + 1" using Cons.prems(7) by simp
  have lt: "e < bi" using Cons.prems(6) l2 by simp
  have step: "parse_lines b bi e d =
         bnd (decode_line b (e + 1) (e + int (length l)) d) (\<lambda>d'.
           parse_lines b bi (e + int (length l)) d')"
    by (rule parse_lines_step[OF win tl Cons.prems(4) Cons.prems(5) lt bound])
  with Cons.prems(1) obtain d' where dl: "decode_line b (e + 1) (e + int (length l)) d = Inr d'"
    and d': "parse_lines b bi (e + int (length l)) d' = Inr dfin"
    by (auto simp: bnd_eq_Inr)
  have sb: "e + 1 \<le> int BUFFER_SIZE" using Cons.prems(4) bound l2 by linarith
  have "startsWith b OBIS_TARIFF1_DELIVERED (e + 1) \<noteq> Inr True"
  proof
    assume a: "startsWith b OBIS_TARIFF1_DELIVERED (e + 1) = Inr True"
    have len9: "length OBIS_TARIFF1_DELIVERED = 9" by simp
    have "take (length OBIS_TARIFF1_DELIVERED) (l @ (concat ls @ rest)) = OBIS_TARIFF1_DELIVERED"
      by (rule startsWith_True_take[OF a win Cons.prems(4) sb])
    then have "take 9 (l @ (concat ls @ rest)) = OBIS_TARIFF1_DELIVERED"
      unfolding len9 .
    then have "take 9 l = OBIS_TARIFF1_DELIVERED"
      by (rule code_prefix_line[OF _ tl]) simp
    then show False using np by simp
  qed
  then have a: "DeliveredTariff1 d' = DeliveredTariff1 d"
    using decode_line_DeliveredTariff1[OF dl] by simp
  have win2: "window b = (pre @ l) @ concat ls @ rest" using win by simp
  have "DeliveredTariff1 dfin = DeliveredTariff1 d'"
  proof (rule Cons.IH[OF d' win2])
    show "\<forall>l\<in>set ls. text_line l \<and> take 9 l \<noteq> OBIS_TARIFF1_DELIVERED"
      using Cons.prems(3) by simp
    show "int (length (pre @ l)) = e + int (length l) + 1" using Cons.prems(4) by simp
    show "0 \<le> e + int (length l)" using Cons.prems(5) by simp
    show "bi = e + int (length l) + int (length (concat ls))" using Cons.prems(6) by simp
    show "length (pre @ l) + length (concat ls) \<le> BUFFER_SIZE + 1" using Cons.prems(7) by simp
  qed
  then show ?case using a by simp
qed

lemma ProcessTelegram_fields:
  assumes "ProcessTelegram sc m = Inr (d, m')"
  obtains d0 crc valid where "read_fields m = Inr d0"
    and "check_crc sc (buffer m) = Inr (crc, valid)"
    and "d = d0\<lparr>CRC := crc, ValidCRC := valid\<rparr>"
    and "clear_buffer (buffer m) = Inr (buffer m')"
    and "m' = m\<lparr>buffer := buffer m', DataReady := False, data := d\<rparr>"
  using assms by (auto simp: ProcessTelegram_def bnd_eq_Inr Let_def)

lemma read_fields_lines:
  assumes "read_fields m = Inr d0"
  obtains endOfLine dd where "indexOf (buffer m) LF 0 = Inr endOfLine"
    and "parse_lines (buffer m) (bufferIndex m) endOfLine dd = Inr d0"
  using assms by (auto simp: read_fields_def bnd_eq_Inr Let_def)

lemma tariff1_decoded:
  assumes run: "ProcessTelegram sc m = Inr (d, m')"
    and buf: "buffer m = hdr @ LF # concat before @
                (OBIS_TARIFF1_DELIVERED @ CHR ''('' # W @ CHR ''.'' # F @ trail @ [LF]) @
                concat after @ rest"
    and len: "length (buffer m) = BUFFER_SIZE + 1"
    and hdr: "LF \<notin> set hdr" "NUL \<notin> set hdr"
    and before: "\<forall>l \<in> set before. text_line l"
    and after: "\<forall>l \<in> set after. text_line l \<and> take 9 l \<noteq> OBIS_TARIFF1_DELIVERED"
    and trail: "LF \<notin> set trail" "NUL \<notin> set trail"
    and W: "digits_in 10 W" "length W = 6"
    and F: "digits_in 10 F" "length F = 3"
    and bi: "bufferIndex m =
               int (length hdr + length (concat before) + (21 + length trail) + length (concat after))"
  shows "DeliveredTariff1 d = word_of_int (number_in 10 (W @ F))"
proof -
  let ?b = "buffer m"
  let ?target = "OBIS_TARIFF1_DELIVERED @ CHR ''('' # W @ CHR ''.'' # F @ trail @ [LF]"
  let ?e1 = "int (length hdr) + int (length (concat before))"
  note nW = digits_in_10_not[OF W(1)] and nF = digits_in_10_not[OF F(1)]
  have win: "window ?b = ?b" using len by (simp add: window_id)
  have tlen: "length ?target = 21 + length trail" using W(2) F(2) by simp
  have total: "length hdr + 1 + length (concat before) + length ?target + length (concat after)
                 \<le> BUFFER_SIZE + 1"
    using len by (subst (asm) buf) simp
  from run obtain d0 where d0: "read_fields m = Inr d0"
    and dd: "DeliveredTariff1 d = DeliveredTariff1 d0"
    by (rule ProcessTelegram_fields) simp
  from d0 obtain endOfLine dd where eol: "indexOf ?b LF 0 = Inr endOfLine"
    and pl: "parse_lines ?b (bufferIndex m) endOfLine dd = Inr d0"
    by (rule read_fields_lines)
  have "indexOf ?b LF 0 = Inr (0 + int (length hdr))"
    using hdr total
    by (intro indexOf_found[where pre = "[]" and
          post = "concat before @ ?target @ concat after @ rest"])
       (simp_all add: win, subst buf, simp)
  with eol have e: "endOfLine = int (length hdr)" by simp
  have tt: "text_line ?target"
    using nW nF trail by (simp add: text_line_def butlast_append)
  have w1: "window ?b = (hdr @ [LF]) @ concat before @ (?target @ concat after @ rest)"
    by (simp add: win, subst buf, simp)
  have "\<exists>d1. parse_lines ?b (bufferIndex m) (int (length hdr) + int (length (concat before))) d1
            = Inr d0"
    using pl[unfolded e] w1 before
  proof (rule parse_lines_reach)
    show "int (length (hdr @ [LF])) = int (length hdr) + 1" by simp
    show "0 \<le> int (length hdr)" by simp
    show "int (length hdr) + int (length (concat before)) < bufferIndex m"
      unfolding bi by simp
    show "length (hdr @ [LF]) + length (concat before) \<le> BUFFER_SIZE + 1"
      using total by simp
  qed
  then obtain d1 where d1: "parse_lines ?b (bufferIndex m) ?e1 d1 = Inr d0"
    by blast
  have w2: "window ?b = (hdr @ LF # concat before) @ ?target @ (concat after @ rest)"
    by (simp add: win, subst buf, simp)
  have step: "parse_lines ?b (bufferIndex m) ?e1 d1 =
         bnd (decode_line ?b (?e1 + 1) (?e1 + int (length ?target)) d1) (\<lambda>d'.
           parse_lines ?b (bufferIndex m) (?e1 + int (length ?target)) d')"
    using w2 tt
  proof (rule parse_lines_step)
    show "int (length (hdr @ LF # concat before)) = ?e1 + 1" by simp
    show "0 \<le> ?e1" by simp
    show "?e1 < bufferIndex m" unfolding bi by simp
    show "length (hdr @ LF # concat before) + length ?target \<le> BUFFER_SIZE + 1"
      using total by simp
  qed
  have w3: "window ?b = (hdr @ LF # concat before) @ OBIS_TARIFF1_DELIVERED @ CHR ''('' # W @
              CHR ''.'' # F @ (trail @ [LF] @ concat after @ rest)"
    by (simp add: win, subst buf, simp)
  have line: "decode_line ?b (?e1 + 1) (?e1 + int (length ?target)) d1 =
         Inr (d1\<lparr>DeliveredTariff1 := word_of_int (number_in 10 (W @ F))\<rparr>)"
    using w3
  proof (rule tariff1_line)
    show "int (length (hdr @ LF # concat before)) = ?e1 + 1" by simp
    show "length (hdr @ LF # concat before) + 20 \<le> BUFFER_SIZE"
      using total tlen by simp
  qed (rule W F)+
  from d1 have d2: "parse_lines ?b (bufferIndex m) (?e1 + int (length ?target))
                      (d1\<lparr>DeliveredTariff1 := word_of_int (number_in 10 (W @ F))\<rparr>) = Inr d0"
    by (simp only: step line bnd_Inr)
  have w4: "window ?b = (hdr @ LF # concat before @ ?target) @ concat after @ rest"
    by (simp add: win, subst buf, simp)
  have "DeliveredTariff1 d0 =
        DeliveredTariff1 (d1\<lparr>DeliveredTariff1 := word_of_int (number_in 10 (W @ F))\<rparr>)"
    using d2 w4 after
  proof (rule parse_lines_DeliveredTariff1)
    show "int (length (hdr @ LF # concat before @ ?target)) = ?e1 + int (length ?target) + 1"
      by simp
    show "0 \<le> ?e1 + int (length ?target)" by simp
    show "bufferIndex m = ?e1 + int (length ?target) + int (length (concat after))"
      unfolding bi tlen by simp
    show "length (hdr @ LF # concat before @ ?target) + length (concat after) \<le> BUFFER_SIZE + 1"
      using total by simp
  qed
  then show ?thesis using dd by simp
qed

section \<open>The trailer check\<close>












text \<open>The trailer check on a buffer of known layout.\<close>

lemma check_crc_layout:
  assumes buf: "b = body @ CHR ''!'' # rest" and len: "length b = BUFFER_SIZE + 1"
    and body: "CHR ''!'' \<notin> set body" "NUL \<notin> set body"
  shows "check_crc sc b =
     bnd (strncpy_src rest 4) (\<lambda>copied.
     bnd (strtoul (copied @ [NUL]) 16) (\<lambda>v.
       Inr (ucast v, (ucast v :: 16 word) = foldl (crc_byte sc) 0 (body @ [CHR ''!'']))))"
proof -
  have win: "window b = [] @ body @ CHR ''!'' # rest"
    using buf len by (simp add: window_id)
  have bl: "length body + 1 + length rest = BUFFER_SIZE + 1"
    using len by (simp add: buf)
  have ix: "indexOf b (CHR ''!'') 0 = Inr (0 + int (length body))"
    by (rule indexOf_found[OF win _ body]) simp_all
  have u: "u16 (int (length body)) = int (length body)"
    using bl by (intro u16_id) (auto simp: BUFFER_SIZE_def)
  have u1: "nat (u16 (int (length body) + 1)) = length body + 1"
  proof -
    have "u16 (int (length body) + 1) = int (length body) + 1"
      using bl by (intro u16_id) (auto simp: BUFFER_SIZE_def)
    then show ?thesis by simp
  qed
  have crc: "calcCRC16 sc b (int (length body) + 1) =
             Inr (foldl (crc_byte sc) 0 (body @ [CHR ''!'']))"
    unfolding calcCRC16_def u1
    by (subst CRC16_foldl) (simp_all add: buf)
  show ?thesis
  proof (cases rest)
    case Nil
    then have "at_offset b (int (length body) + 1) = Inl BufferBounds"
      using bl by (simp add: at_offset_def)
    moreover have "strncpy_src [] 4 = Inl BufferBounds" by (simp add: numeral_eq_Suc)
    ultimately show ?thesis
      using Nil by (simp add: check_crc_def ix u crc Let_def)
  next
    case (Cons r rs)
    have "at_offset b (int (length body) + 1) = Inr rest"
      using buf len bl Cons
      by (intro at_offset_append[where pre = "body @ [CHR ''!'']"]) (auto simp: window_id)
    then show ?thesis
      by (simp add: check_crc_def ix u crc Let_def)
  qed
qed

text \<open>The trailer as the specification reads it: four hexadecimal digits, upper or
  lower case, as an unsigned number.\<close>

definition spec_hex_digit :: "char \<Rightarrow> nat option" where
  "spec_hex_digit c =
     (if c \<in> set ''0123456789'' then Some (of_char c - 48)
      else if c \<in> set ''abcdef'' then Some (of_char c - 87)
      else if c \<in> set ''ABCDEF'' then Some (of_char c - 55)
      else None)"

definition spec_hex_value :: "string \<Rightarrow> nat" where
  "spec_hex_value t = foldl (\<lambda>a c. a * 16 + the (spec_hex_digit c)) 0 t"

lemma spec_hex_digit_of:
  "spec_hex_digit c = Some v \<Longrightarrow> digit_of c = Some (int v) \<and> v < 16"
proof -
  assume a: "spec_hex_digit c = Some v"
  have all: "\<forall>c \<in> set ''0123456789abcdefABCDEF''. \<forall>v. spec_hex_digit c = Some v \<longrightarrow>
               digit_of c = Some (int v) \<and> v < 16"
    by (simp add: spec_hex_digit_def digit_of_def)
  have "c \<in> set ''0123456789abcdefABCDEF''"
    using a by (auto simp: spec_hex_digit_def split: if_splits)
  then show ?thesis using all a by blast
qed

lemma hex_digits_in:
  "\<forall>c \<in> set t. spec_hex_digit c \<noteq> None \<Longrightarrow> digits_in 16 t"
  using spec_hex_digit_of by (fastforce simp: digits_in_def)

lemma hex_foldl:
  "\<forall>c \<in> set t. spec_hex_digit c \<noteq> None \<Longrightarrow>
   foldl (\<lambda>a c. a * 16 + the (digit_of c)) (int acc) t =
   int (foldl (\<lambda>a c. a * 16 + the (spec_hex_digit c)) acc t)"
proof (induction t arbitrary: acc)
  case Nil
  then show ?case by simp
next
  case (Cons c t)
  then obtain v where v: "spec_hex_digit c = Some v" by auto
  then have d: "digit_of c = Some (int v)" using spec_hex_digit_of by blast
  show ?case using Cons.IH[of "acc * 16 + v"] Cons.prems v d by simp
qed

lemma hex_number_in:
  "\<forall>c \<in> set t. spec_hex_digit c \<noteq> None \<Longrightarrow> number_in 16 t = int (spec_hex_value t)"
  using hex_foldl[of t 0] by (simp add: number_in_def spec_hex_value_def)

lemma spec_hex_value_bound:
  assumes "\<forall>c \<in> set t. spec_hex_digit c \<noteq> None"
  shows "int (spec_hex_value t) < 16 ^ length t"
  using number_in_bound[OF hex_digits_in[OF assms], of ] hex_number_in[OF assms] by simp

lemma ucast_small:
  assumes "k < 65536"
  shows "unat (ucast (word_of_int (int k) :: 32 word) :: 16 word) = k"
proof -
  have a: "unat (of_nat k :: 32 word) = k" using assms by (simp add: unat_of_nat)
  have "(ucast (of_nat k :: 32 word) :: 16 word) = of_nat (unat (of_nat k :: 32 word))"
    by simp
  then have "(ucast (of_nat k :: 32 word) :: 16 word) = of_nat k" by (simp only: a)
  moreover have "unat (of_nat k :: 16 word) = k" using assms by (simp add: unat_of_nat)
  ultimately show ?thesis by simp
qed

lemma trailer_value:
  assumes t: "length t = 4" "\<forall>c \<in> set t. spec_hex_digit c \<noteq> None"
  shows "bnd (strncpy_src (t @ rest) 4) (\<lambda>copied. strtoul (copied @ [NUL]) 16) =
         Inr (word_of_int (int (spec_hex_value t)))"
proof -
  have nn: "NUL \<notin> set t" using t(2) by (auto simp: spec_hex_digit_def)
  have cp: "strncpy_src (t @ rest) 4 = Inr t"
    using strncpy_src_exact[OF nn, of rest] t(1) by simp
  have dg: "digits_in 16 t" by (rule hex_digits_in[OF t(2)])
  have ne: "t \<noteq> []" using t(1) by auto
  have b: "number_in 16 t \<le> 4294967295"
    using spec_hex_value_bound[OF t(2)] hex_number_in[OF t(2)] t(1) by simp
  have x: "digit_of (t ! 1) \<noteq> None \<and> the (digit_of (t ! 1)) < 16"
  proof -
    have "t ! 1 \<in> set t" using t(1) by simp
    then obtain v where "digit_of (t ! 1) = Some v" "v < 16"
      using dg by (auto simp: digits_in_def)
    then show ?thesis by simp
  qed
  have "strtoul (t @ NUL # []) 16 = Inr (word_of_int (number_in 16 t))"
    using dg ne _ b x by (rule strtoul_digits) simp
  then show ?thesis by (simp add: cp hex_number_in[OF t(2)])
qed

lemma check_crc_trailer:
  assumes buf: "b = body @ CHR ''!'' # t @ rest" and len: "length b = BUFFER_SIZE + 1"
    and body: "CHR ''!'' \<notin> set body" "NUL \<notin> set body"
    and t: "length t = 4" "\<forall>c \<in> set t. spec_hex_digit c \<noteq> None"
  shows "\<exists>crc. check_crc sc b = Inr (crc, crc = foldl (crc_byte sc) 0 (body @ [CHR ''!''])) \<and>
           unat crc = spec_hex_value t"
proof -
  have k: "spec_hex_value t < 65536"
    using spec_hex_value_bound[OF t(2)] t(1) by simp
  have c: "strncpy_src (t @ rest) 4 = Inr t"
  proof -
    have nn: "NUL \<notin> set t" using t(2) by (auto simp: spec_hex_digit_def)
    show ?thesis using strncpy_src_exact[OF nn, of rest] t(1) by simp
  qed
  have v: "strtoul (t @ [NUL]) 16 = Inr (word_of_int (int (spec_hex_value t)))"
    using trailer_value[OF t, of rest] by (simp add: c)
  have "check_crc sc b =
        Inr (ucast (word_of_int (int (spec_hex_value t)) :: 32 word),
             (ucast (word_of_int (int (spec_hex_value t)) :: 32 word) :: 16 word) =
               foldl (crc_byte sc) 0 (body @ [CHR ''!'']))"
    by (subst check_crc_layout[OF buf len body]) (simp only: c v bnd_Inr)
  then show ?thesis using ucast_small[OF k] by blast
qed

text \<open>The call of \<open>ReceiveTelegram\<close> never lowers the write index below 1 once it has
  stored a start marker.\<close>

lemma cts_release_fields [simp]:
  "bufferIndex (cts_release m) = bufferIndex m"
  "buffer (cts_release m) = buffer m"
  "DataReady (cts_release m) = DataReady m"
  by (simp_all add: cts_release_def)

lemma cts_assert_fields [simp]:
  "bufferIndex (cts_assert m) = bufferIndex m"
  "buffer (cts_assert m) = buffer m"
  "DataReady (cts_assert m) = DataReady m"
  by (simp_all add: cts_assert_def)

lemma receive_loop_index:
  "receive_loop below m xs = Returned m' r \<Longrightarrow> bufferIndex m \<le> bufferIndex m'"
proof (induction xs arbitrary: m)
  case Nil
  then show ?case by (simp split: if_splits)
next
  case (Cons x xs)
  show ?case
  proof (cases "DataReady m")
    case True
    then show ?thesis using Cons.prems by simp
  next
    case False
    then show ?thesis
      using Cons.prems
      by (auto split: sum.splits if_splits dest!: Cons.IH)
  qed
qed

lemma ReceiveTelegram_index:
  assumes "ReceiveTelegram below m0 serial = Returned m unread" and "DataReady m"
    and "\<not> DataReady m0"
  shows "1 \<le> bufferIndex m"
proof (cases serial)
  case Nil
  then show ?thesis using assms by (auto simp: ReceiveTelegram_def)
next
  case (Cons c cs)
  show ?thesis
  proof (cases "c = CHR ''/''")
    case False
    then show ?thesis using assms Cons by (auto simp: ReceiveTelegram_def)
  next
    case True
    then show ?thesis
      using assms Cons
      by (auto simp: ReceiveTelegram_def Let_def split: sum.splits dest!: receive_loop_index)
  qed
qed

lemma ReceiveTelegram_idle:
  "c \<noteq> CHR ''/'' \<Longrightarrow> ReceiveTelegram below m (c # cs) = Returned (cts_assert m) cs"
  by (simp add: ReceiveTelegram_def)

section \<open>Reception of a telegram\<close>

text \<open>What the completion test reads when the newest byte has been stored at \<open>pos\<close>
  and \<open>content\<close> is what the buffer holds from its start: the byte six places
  before it, which lies below the buffer for the first five bytes after the start
  marker.\<close>

definition behind :: "(nat \<Rightarrow> char) \<Rightarrow> char list \<Rightarrow> nat \<Rightarrow> char" where
  "behind below content pos = (if pos < 6 then below (6 - pos) else content ! (pos - 6))"

lemma behind_clear:
  assumes "\<forall>k \<in> {1..5}. below k \<noteq> CHR ''!''" and "CHR ''!'' \<notin> set A"
    and "pos < length A + 6" and "0 < pos"
  shows "behind below (A @ B) pos \<noteq> CHR ''!''"
proof (cases "pos < 6")
  case True
  then have "6 - pos \<in> {1..5}" using assms(4) by auto
  then show ?thesis using assms(1) True by (simp add: behind_def)
next
  case False
  then have "pos - 6 < length A" using assms(3) by simp
  then have "(A @ B) ! (pos - 6) \<in> set A" by (simp add: nth_append)
  then show ?thesis using assms(2) False by (auto simp: behind_def)
qed

lemma peek_behind:
  assumes "length b = BUFFER_SIZE + 1" and "i \<le> BUFFER_SIZE"
  shows "peek below (b[i := x]) (int i - 6) = Inr (behind below (take i b @ x # ys) i)"
proof (cases "i < 6")
  case True
  then have "nat (- (int i - 6)) = 6 - i" by simp
  then show ?thesis using True by (simp add: peek_def behind_def)
next
  case False
  then have n: "nat (int i - 6) = i - 6" by simp
  have "(take i b @ x # ys) ! (i - 6) = b ! (i - 6)"
    using False assms by (simp add: nth_append)
  then show ?thesis using False assms by (simp add: peek_def behind_def n)
qed

lemma poke_in:
  "length b = BUFFER_SIZE + 1 \<Longrightarrow> i \<le> BUFFER_SIZE \<Longrightarrow> poke b (int i) x = Inr (b[i := x])"
  by (simp add: poke_def)

lemma receive_loop_append:
  "receive_loop below m xs = Waiting m' \<Longrightarrow>
   receive_loop below m (xs @ ys) = receive_loop below m' ys"
proof (induction xs arbitrary: m)
  case Nil
  then show ?case by (cases ys) (auto split: if_splits)
next
  case (Cons x xs)
  then show ?case by (auto split: sum.splits if_splits)
qed

lemma receive_loop_Waiting:
  "receive_loop below m xs = Waiting m' \<Longrightarrow> \<not> DataReady m'"
  by (induction xs arbitrary: m) (auto split: sum.splits if_splits)

lemma receive_loop_run:
  assumes "\<not> DataReady m" and "length (buffer m) = BUFFER_SIZE + 1"
    and "bufferIndex m = int i" and "i + length xs \<le> BUFFER_SIZE + 1"
    and "\<forall>j < length xs. behind below (take i (buffer m) @ xs) (i + j) \<noteq> CHR ''!''"
  shows "receive_loop below m xs =
         Waiting (m\<lparr>buffer := take i (buffer m) @ xs @ drop (i + length xs) (buffer m),
                    bufferIndex := int (i + length xs)\<rparr>)"
  using assms
proof (induction xs arbitrary: m i)
  case Nil
  then show ?case by simp
next
  case (Cons x xs)
  let ?b = "(buffer m)[i := x]"
  let ?m = "m\<lparr>buffer := ?b, bufferIndex := bufferIndex m + 1\<rparr>"
  have i: "i \<le> BUFFER_SIZE" using Cons.prems(4) by simp
  have tk: "take (Suc i) ?b = take i (buffer m) @ [x]"
    using Cons.prems(2) i by (simp add: take_Suc_conv_app_nth)
  have pk: "peek below ?b (bufferIndex m - 6) =
            Inr (behind below (take i (buffer m) @ x # xs) i)"
    unfolding Cons.prems(3) by (rule peek_behind[OF Cons.prems(2) i])
  have nb: "behind below (take i (buffer m) @ x # xs) i \<noteq> CHR ''!''"
    using Cons.prems(5) by (auto dest: spec[where x = 0])
  have step: "receive_loop below m (x # xs) = receive_loop below ?m xs"
    using Cons.prems(1) nb
    by (simp add: pk poke_in[OF Cons.prems(2) i, folded Cons.prems(3)])
  have "receive_loop below ?m xs =
        Waiting (?m\<lparr>buffer := take (Suc i) (buffer ?m) @ xs @ drop (Suc i + length xs) (buffer ?m),
                    bufferIndex := int (Suc i + length xs)\<rparr>)"
  proof (rule Cons.IH)
    show "\<not> DataReady ?m" using Cons.prems(1) by simp
    show "length (buffer ?m) = BUFFER_SIZE + 1" using Cons.prems(2) by simp
    show "bufferIndex ?m = int (Suc i)" using Cons.prems(3) by simp
    show "Suc i + length xs \<le> BUFFER_SIZE + 1" using Cons.prems(4) by simp
    show "\<forall>j<length xs. behind below (take (Suc i) (buffer ?m) @ xs) (Suc i + j) \<noteq> CHR ''!''"
    proof (intro allI impI)
      fix j
      assume "j < length xs"
      then have "behind below (take i (buffer m) @ x # xs) (i + Suc j) \<noteq> CHR ''!''"
        using Cons.prems(5) by (auto dest: spec[where x = "Suc j"])
      then show "behind below (take (Suc i) (buffer ?m) @ xs) (Suc i + j) \<noteq> CHR ''!''"
        by (simp add: tk)
    qed
  qed
  then show ?case by (simp only: step) (simp add: tk del: receive_loop.simps)
qed

lemma receive_loop_trigger:
  assumes "\<not> DataReady m" and "length (buffer m) = BUFFER_SIZE + 1"
    and "bufferIndex m = int i" and "i \<le> BUFFER_SIZE"
    and "behind below (take i (buffer m) @ [x]) i = CHR ''!''"
  shows "receive_loop below m (x # unread) =
         Returned (cts_release (m\<lparr>buffer := (buffer m)[i := x], DataReady := True\<rparr>)) unread"
proof -
  have pk: "peek below ((buffer m)[i := x]) (bufferIndex m - 6) = Inr (CHR ''!'')"
    unfolding assms(3) using peek_behind[OF assms(2,4), of below x "[]"] assms(5) by simp
  show ?thesis
    using assms(1)
    by (cases unread) (simp_all add: pk poke_in[OF assms(2,4), folded assms(3)])
qed

text \<open>The whole call, on a port that delivers a start marker and then \<open>xs\<close>.\<close>

lemma ReceiveTelegram_start:
  "length (buffer m0) = BUFFER_SIZE + 1 \<Longrightarrow>
   ReceiveTelegram below m0 (CHR ''/'' # cs) =
   receive_loop below
     ((cts_assert m0)\<lparr>buffer := (buffer m0)[0 := CHR ''/''], bufferIndex := 1\<rparr>) cs"
  by (auto simp: ReceiveTelegram_def poke_def Let_def)

lemma ReceiveTelegram_run:
  assumes "\<not> DataReady m0" and "length (buffer m0) = BUFFER_SIZE + 1"
    and "1 + length xs \<le> BUFFER_SIZE + 1"
    and "\<forall>j < length xs. behind below (CHR ''/'' # xs) (1 + j) \<noteq> CHR ''!''"
  shows "ReceiveTelegram below m0 (CHR ''/'' # xs) =
         Waiting ((cts_assert m0)\<lparr>buffer := CHR ''/'' # xs @ drop (1 + length xs) (buffer m0),
                    bufferIndex := int (1 + length xs)\<rparr>)"
proof -
  let ?b = "(buffer m0)[0 := CHR ''/'']"
  let ?m = "(cts_assert m0)\<lparr>buffer := ?b, bufferIndex := 1\<rparr>"
  have t1: "take (Suc 0) ?b = [CHR ''/'']"
    using assms(2) by (cases "buffer m0") simp_all
  have "receive_loop below ?m xs =
        Waiting (?m\<lparr>buffer := take 1 (buffer ?m) @ xs @ drop (1 + length xs) (buffer ?m),
                    bufferIndex := int (1 + length xs)\<rparr>)"
  proof (rule receive_loop_run)
    show "\<not> DataReady ?m" using assms(1) by simp
    show "length (buffer ?m) = BUFFER_SIZE + 1" using assms(2) by simp
    show "bufferIndex ?m = int 1" by simp
    show "1 + length xs \<le> BUFFER_SIZE + 1" by (rule assms(3))
    show "\<forall>j<length xs. behind below (take 1 (buffer ?m) @ xs) (1 + j) \<noteq> CHR ''!''"
      using assms(4) by (simp add: t1)
  qed
  moreover have "poke (buffer (cts_assert m0)) 0 (CHR ''/'') = Inr ?b"
    using poke_in[of "buffer m0" 0] assms(2) by simp
  ultimately show ?thesis
    by (simp add: ReceiveTelegram_def t1)
qed

lemma ReceiveTelegram_complete:
  assumes "\<not> DataReady m0" and "length (buffer m0) = BUFFER_SIZE + 1"
    and "1 + length xs \<le> BUFFER_SIZE"
    and "\<forall>j < length xs. behind below (CHR ''/'' # xs) (1 + j) \<noteq> CHR ''!''"
    and "behind below (CHR ''/'' # xs @ [z]) (1 + length xs) = CHR ''!''"
  shows "ReceiveTelegram below m0 (CHR ''/'' # xs @ z # unread) =
         Returned (cts_release ((cts_assert m0)\<lparr>
                     bufferIndex := int (1 + length xs),
                     buffer := CHR ''/'' # xs @ z # drop (2 + length xs) (buffer m0),
                     DataReady := True\<rparr>)) unread"
proof -
  let ?b = "CHR ''/'' # xs @ drop (1 + length xs) (buffer m0)"
  let ?m = "(cts_assert m0)\<lparr>buffer := ?b, bufferIndex := int (1 + length xs)\<rparr>"
  have w: "ReceiveTelegram below m0 (CHR ''/'' # xs) = Waiting ?m"
    using assms(1,2) _ assms(4) by (rule ReceiveTelegram_run) (use assms(3) in simp)
  have lb: "length ?b = BUFFER_SIZE + 1" using assms(2,3) by simp
  have tk: "take (1 + length xs) ?b = CHR ''/'' # xs" by simp
  have up: "(CHR ''/'' # xs @ drop (Suc (length xs)) (buffer m0))[Suc (length xs) := z] =
            CHR ''/'' # xs @ z # drop (Suc (Suc (length xs))) (buffer m0)"
  proof -
    have "drop (Suc (length xs)) (buffer m0) \<noteq> []" using assms(2,3) by simp
    then obtain y ys where d: "drop (Suc (length xs)) (buffer m0) = y # ys"
      by (cases "drop (Suc (length xs)) (buffer m0)") auto
    have "drop (Suc (Suc (length xs))) (buffer m0) = drop 1 (drop (Suc (length xs)) (buffer m0))"
      by simp
    then have "drop (Suc (Suc (length xs))) (buffer m0) = ys" by (simp only: d) simp
    then show ?thesis by (simp add: d list_update_append)
  qed
  have tr: "receive_loop below ?m (z # unread) =
            Returned (cts_release (?m\<lparr>buffer := (buffer ?m)[1 + length xs := z],
                                       DataReady := True\<rparr>)) unread"
  proof (rule receive_loop_trigger)
    show "\<not> DataReady ?m" using assms(1) by simp
    show "length (buffer ?m) = BUFFER_SIZE + 1" using lb by simp
    show "bufferIndex ?m = int (1 + length xs)" by simp
    show "1 + length xs \<le> BUFFER_SIZE" by (rule assms(3))
    show "behind below (take (1 + length xs) (buffer ?m) @ [z]) (1 + length xs) = CHR ''!''"
      using assms(5) by simp
  qed
  have "ReceiveTelegram below m0 (CHR ''/'' # xs @ z # unread) =
        receive_loop below ?m (z # unread)"
    unfolding ReceiveTelegram_start[OF assms(2)]
    by (rule receive_loop_append[OF w[unfolded ReceiveTelegram_start[OF assms(2)]]])
  then show ?thesis by (simp only: tr) (simp add: up del: list_update.simps)
qed

section \<open>A sample telegram\<close>

text \<open>A telegram of one line, with its trailer, and the object that holds it when
  the reception is complete.\<close>

definition tariff_telegram :: "char list" where
  "tariff_telegram =
     ''/ISK5'' @ [CR, LF] @ ''1-0:1.8.1(001234.567*kWh)'' @ [CR, LF] @ ''!216E'' @ [CR, LF]"

definition tariff_meter :: P1Meter where
  "tariff_meter =
     \<lparr>DataReady = True, buffer = tariff_telegram @ replicate 984 NUL, bufferIndex = 40,
      data = zero_data, ctsPin = 0xFF, ctsHigh = False, pins = []\<rparr>"

lemma tariff_window: "window (buffer tariff_meter) = buffer tariff_meter"
  by (simp add: window_id tariff_meter_def tariff_telegram_def BUFFER_SIZE_def)

lemma tariff_lines:
  "parse_lines (buffer tariff_meter) 40 6 d = Inr (d\<lparr>DeliveredTariff1 := 1234567\<rparr>)"
proof -
  let ?b = "buffer tariff_meter"
  have 1: "parse_lines ?b 40 6 d =
           bnd (decode_line ?b (6 + 1) (6 + int (length (''1-0:1.8.1(001234.567*kWh)'' @ [CR, LF]))) d)
             (\<lambda>d'. parse_lines ?b 40 (6 + int (length (''1-0:1.8.1(001234.567*kWh)'' @ [CR, LF]))) d')"
    by (rule parse_lines_step[where pre = "''/ISK5'' @ [CR, LF]" and rest = "''!216E'' @ [CR, LF] @ replicate 984 NUL"])
       (simp_all add: tariff_window text_line_def BUFFER_SIZE_def, simp add: tariff_meter_def tariff_telegram_def)
  have 2: "decode_line ?b 7 33 d = Inr (d\<lparr>DeliveredTariff1 := word_of_int (number_in 10 (''001234'' @ ''567''))\<rparr>)"
    by (rule tariff1_line[where pre = "''/ISK5'' @ [CR, LF]" and tail = "''*kWh)'' @ [CR, LF] @ ''!216E'' @ [CR, LF] @ replicate 984 NUL"])
       (simp_all add: tariff_window digits_in_def digit_of_def BUFFER_SIZE_def, simp add: tariff_meter_def tariff_telegram_def)
  have 3: "parse_lines ?b 40 33 d' =
           bnd (decode_line ?b (33 + 1) (33 + int (length (''!216E'' @ [CR, LF]))) d')
             (\<lambda>d''. parse_lines ?b 40 (33 + int (length (''!216E'' @ [CR, LF]))) d'')" for d'
    by (rule parse_lines_step[where pre = "''/ISK5'' @ [CR, LF] @ ''1-0:1.8.1(001234.567*kWh)'' @ [CR, LF]" and rest = "replicate 984 NUL"])
       (simp_all add: tariff_window text_line_def BUFFER_SIZE_def, simp add: tariff_meter_def tariff_telegram_def)
  have 4: "decode_line ?b 34 40 d' = Inr d'" for d'
  proof (rule decode_line_unmatched)
    show "at_offset ?b (u16 34) = Inr (''!216E'' @ [CR, LF] @ replicate 984 NUL)"
      by (rule at_offset_append[where pre = "''/ISK5'' @ [CR, LF] @ ''1-0:1.8.1(001234.567*kWh)'' @ [CR, LF]"])
         (simp_all add: tariff_window u16_def BUFFER_SIZE_def, simp add: tariff_meter_def tariff_telegram_def)
    show "at_offset ?b (u16 (34 + 3)) = Inr (''6E'' @ [CR, LF] @ replicate 984 NUL)"
      by (rule at_offset_append[where pre = "''/ISK5'' @ [CR, LF] @ ''1-0:1.8.1(001234.567*kWh)'' @ [CR, LF] @ ''!21''"])
         (simp_all add: tariff_window u16_def BUFFER_SIZE_def, simp add: tariff_meter_def tariff_telegram_def)
  qed (simp_all add: main_codes_def device_codes_def)
  have 5: "parse_lines ?b 40 40 d' = Inr d'" for d'
    by (rule parse_lines_stop) simp
  have n: "word_of_int (number_in 10 ''001234567'') = (1234567 :: 32 word)"
    by (simp add: number_in_def digit_of_def)
  show ?thesis
    using 1 2 3 4 5 by (simp add: n)
qed

lemma tariff_length: "length (buffer tariff_meter) = BUFFER_SIZE + 1"
  by (simp add: tariff_meter_def tariff_telegram_def BUFFER_SIZE_def)

definition tariff_reading :: P1Data where
  "tariff_reading =
     zero_data\<lparr>NumberOfMBusDevices := 0, HeaderInfo := ''ISK5'' @ [CR],
               DeliveredTariff1 := 1234567, CRC := 0x216E, ValidCRC := True\<rparr>"

lemma tariff_fields:
  "read_fields tariff_meter =
   Inr (zero_data\<lparr>NumberOfMBusDevices := 0, HeaderInfo := ''ISK5'' @ [CR],
                  DeliveredTariff1 := 1234567\<rparr>)"
proof -
  let ?b = "buffer tariff_meter"
  have 1: "lastIndexOf ?b (CHR ''-'') 0 = Inr 8"
    by (simp add: tariff_meter_def tariff_telegram_def run_buffer cong: bnd_weak_cong)
  have 2: "indexOf ?b (CHR ''/'') 0 = Inr 0"
    by (simp add: tariff_meter_def tariff_telegram_def run_buffer cong: bnd_weak_cong)
  have 3: "indexOf ?b LF 0 = Inr 6"
    by (simp add: tariff_meter_def tariff_telegram_def run_buffer cong: bnd_weak_cong)
  have 4: "getSubString ?b 1 6 = Inr (''ISK5'' @ [CR])"
    by (simp add: tariff_meter_def tariff_telegram_def run_buffer cong: bnd_weak_cong)
  have 5: "\<exists>p. at_offset ?b 9 = Inr p \<and> strtoul p 10 = Inr 0"
    by (simp add: tariff_meter_def tariff_telegram_def run_buffer run_number
        cong: bnd_weak_cong)
  then obtain p where p: "at_offset ?b 9 = Inr p" "strtoul p 10 = Inr 0"
    by blast
  have bi: "bufferIndex tariff_meter = 40" "data tariff_meter = zero_data"
    by (simp_all add: tariff_meter_def)
  show ?thesis
    by (simp add: read_fields_def 1 2 3 4 p bi tariff_lines)
qed

lemma tariff_crc: "check_crc False (buffer tariff_meter) = Inr (0x216E, True)"
proof -
  have b: "buffer tariff_meter =
           (''/ISK5'' @ [CR, LF] @ ''1-0:1.8.1(001234.567*kWh)'' @ [CR, LF]) @
           CHR ''!'' # (''216E'' @ [CR, LF] @ replicate 984 NUL)"
    by (simp add: tariff_meter_def tariff_telegram_def)
  have c: "strncpy_src (''216E'' @ [CR, LF] @ replicate 984 NUL) 4 = Inr ''216E''"
    by (simp add: strncpy_src_numeral)
  have v: "strtoul (''216E'' @ [NUL]) 16 = Inr 0x216E"
    by (simp add: run_number)
  have f: "foldl (crc_byte False) 0
             ((''/ISK5'' @ [CR, LF] @ ''1-0:1.8.1(001234.567*kWh)'' @ [CR, LF]) @ [CHR ''!''])
           = 0x216E"
    by (simp add: crc_byte_def crc_bits_8 crc_shift_def POLYNOMIAL_IBM_REVERSED_def
        widen_char_def)
  have l: "check_crc False (buffer tariff_meter) =
     bnd (strncpy_src (''216E'' @ [CR, LF] @ replicate 984 NUL) 4) (\<lambda>copied.
     bnd (strtoul (copied @ [NUL]) 16) (\<lambda>v.
       Inr (ucast v, (ucast v :: 16 word) = foldl (crc_byte False) 0
         ((''/ISK5'' @ [CR, LF] @ ''1-0:1.8.1(001234.567*kWh)'' @ [CR, LF]) @ [CHR ''!'']))))"
    by (rule check_crc_layout[OF b tariff_length]) simp_all
  show ?thesis
    unfolding l by (simp only: c v f bnd_Inr) simp
qed

lemma tariff_clear:
  "clear_buffer (buffer tariff_meter) = Inr (replicate BUFFER_SIZE NUL @ [NUL])"
  by (simp add: clear_buffer_def tariff_meter_def tariff_telegram_def BUFFER_SIZE_def)

lemma tariff_run:
  "ProcessTelegram False tariff_meter =
   Inr (tariff_reading,
        tariff_meter\<lparr>buffer := replicate BUFFER_SIZE NUL @ [NUL], DataReady := False,
                      data := tariff_reading\<rparr>)"
  by (simp add: ProcessTelegram_def tariff_fields tariff_crc tariff_clear Let_def
      tariff_reading_def)

lemma tariff_received:
  "ReceiveTelegram (\<lambda>k. NUL) (P1Meter_serial NUL zero_data) tariff_telegram =
   Returned tariff_meter []"
proof -
  let ?m0 = "P1Meter_serial NUL zero_data"
  let ?xs = "''ISK5'' @ [CR, LF] @ ''1-0:1.8.1(001234.567*kWh)'' @ [CR, LF] @ ''!216E'' @ [CR]"
  have "ReceiveTelegram (\<lambda>k. NUL) ?m0 (CHR ''/'' # ?xs @ LF # []) =
        Returned (cts_release ((cts_assert ?m0)\<lparr>
                    bufferIndex := int (1 + length ?xs),
                    buffer := CHR ''/'' # ?xs @ LF # drop (2 + length ?xs) (buffer ?m0),
                    DataReady := True\<rparr>)) []"
  proof (rule ReceiveTelegram_complete)
    show "\<not> DataReady ?m0" by (simp add: P1Meter_serial_def)
    show "length (buffer ?m0) = BUFFER_SIZE + 1" by (simp add: P1Meter_serial_def)
    show "1 + length ?xs \<le> BUFFER_SIZE" by (simp add: BUFFER_SIZE_def)
    show "\<forall>j<length ?xs. behind (\<lambda>k. NUL) (CHR ''/'' # ?xs) (1 + j) \<noteq> CHR ''!''"
    proof -
      have "behind (\<lambda>k. NUL) ((''/ISK5'' @ [CR, LF] @ ''1-0:1.8.1(001234.567*kWh)'' @ [CR, LF]) @
               (''!216E'' @ [CR])) pos \<noteq> CHR ''!''"
        if "pos < 40" "0 < pos" for pos
        by (rule behind_clear) (use that in simp_all)
      then show ?thesis by simp
    qed
    show "behind (\<lambda>k. NUL) (CHR ''/'' # ?xs @ [LF]) (1 + length ?xs) = CHR ''!''"
      by (simp add: behind_def)
  qed
  moreover have "cts_release ((cts_assert ?m0)\<lparr>
                    bufferIndex := int (1 + length ?xs),
                    buffer := CHR ''/'' # ?xs @ LF # drop (2 + length ?xs) (buffer ?m0),
                    DataReady := True\<rparr>) = tariff_meter"
    by (simp add: cts_release_def cts_assert_def P1Meter_serial_def tariff_meter_def
        tariff_telegram_def BUFFER_SIZE_def replicate_append_same)
  ultimately show ?thesis by (simp add: tariff_telegram_def)
qed

section \<open>The fixed-point wire format\<close>

text \<open>The wire sub-format of a fixed-point field as the specification gives it:
  \<open>w\<close> decimal digits, a decimal point, \<open>f\<close> decimal digits, the value counted in
  the minor unit.\<close>

primrec dec_digits :: "nat \<Rightarrow> nat \<Rightarrow> string" where
  "dec_digits 0 v = []"
| "dec_digits (Suc n) v = dec_digits n (v div 10) @ [''0123456789'' ! (v mod 10)]"

definition render_fixed :: "nat \<Rightarrow> nat \<Rightarrow> nat \<Rightarrow> string" where
  "render_fixed w f v = dec_digits w (v div 10 ^ f) @ CHR ''.'' # dec_digits f (v mod 10 ^ f)"

lemma dec_digits_numeral:
  "dec_digits (numeral k) v =
   dec_digits (pred_numeral k) (v div 10) @ [''0123456789'' ! (v mod 10)]"
proof -
  have "dec_digits (numeral k) v = dec_digits (Suc (pred_numeral k)) v"
    by (simp only: numeral_eq_Suc)
  then show ?thesis by (simp only: dec_digits.simps)
qed

lemma decimal_digit: "k < 10 \<Longrightarrow> digit_of (''0123456789'' ! k) = Some (int k)"
proof -
  assume "k < 10"
  then have "k \<in> set [0, 1, 2, 3, 4, 5, 6, 7, 8, 9]" by (simp; arith)
  moreover have "\<forall>k \<in> set [0, 1, 2, 3, 4, 5, 6, 7, 8, 9 :: nat].
                   digit_of (''0123456789'' ! k) = Some (int k)"
    by (simp add: digit_of_def)
  ultimately show ?thesis by blast
qed

lemma dec_digits_length [simp]: "length (dec_digits n v) = n"
  by (induction n arbitrary: v) simp_all

lemma dec_digits_in: "digits_in 10 (dec_digits n v)"
proof (induction n arbitrary: v)
  case 0
  then show ?case by (simp add: digits_in_def)
next
  case (Suc n)
  have "digit_of (''0123456789'' ! (v mod 10)) = Some (int (v mod 10))"
    by (rule decimal_digit) simp
  then have "digits_in 10 [''0123456789'' ! (v mod 10)]"
    by (simp add: digits_in_def)
  then show ?case using Suc[of "v div 10"] by (simp add: digits_in_append)
qed

lemma foldl_digits_shift:
  fixes base :: int
  shows "foldl (\<lambda>a c. a * base + g c) acc ys =
         acc * base ^ length ys + foldl (\<lambda>a c. a * base + g c) 0 ys"
proof (induction ys arbitrary: acc)
  case Nil
  then show ?case by simp
next
  case (Cons y ys)
  have 1: "foldl (\<lambda>a c. a * base + g c) (acc * base + g y) ys =
           (acc * base + g y) * base ^ length ys + foldl (\<lambda>a c. a * base + g c) 0 ys"
    by (rule Cons)
  have 2: "foldl (\<lambda>a c. a * base + g c) (g y) ys =
           g y * base ^ length ys + foldl (\<lambda>a c. a * base + g c) 0 ys"
    by (rule Cons)
  have "foldl (\<lambda>a c. a * base + g c) acc (y # ys) =
        (acc * base + g y) * base ^ length ys + foldl (\<lambda>a c. a * base + g c) 0 ys"
    by (simp only: foldl_Cons 1)
  moreover have "foldl (\<lambda>a c. a * base + g c) 0 (y # ys) =
        g y * base ^ length ys + foldl (\<lambda>a c. a * base + g c) 0 ys"
    using 2 by simp
  ultimately show ?case by (simp add: algebra_simps)
qed

lemma number_in_append:
  "number_in base (xs @ ys) = number_in base xs * base ^ length ys + number_in base ys"
  unfolding number_in_def foldl_append by (rule foldl_digits_shift)

lemma dec_digits_number: "number_in 10 (dec_digits n v) = int (v mod 10 ^ n)"
proof (induction n arbitrary: v)
  case 0
  then show ?case by (simp add: number_in_def)
next
  case (Suc n)
  have d: "digit_of (''0123456789'' ! (v mod 10)) = Some (int (v mod 10))"
    by (rule decimal_digit) simp
  have "number_in 10 (dec_digits (Suc n) v) =
        int (v div 10 mod 10 ^ n) * 10 + int (v mod 10)"
    by (simp add: number_in_append Suc) (simp add: number_in_def d)
  also have "\<dots> = int (10 * (v div 10 mod 10 ^ n) + v mod 10)" by simp
  also have "10 * (v div 10 mod 10 ^ n) + v mod 10 = v mod 10 ^ Suc n"
    by (simp add: mod_mult2_eq)
  finally show ?case .
qed

lemma render_number:
  assumes "v < 10 ^ (w + f)"
  shows "number_in 10 (dec_digits w (v div 10 ^ f) @ dec_digits f (v mod 10 ^ f)) = int v"
proof -
  have "v div 10 ^ f < 10 ^ w"
    using assms by (simp add: less_mult_imp_div_less power_add)
  then have "number_in 10 (dec_digits w (v div 10 ^ f) @ dec_digits f (v mod 10 ^ f)) =
             int (v div 10 ^ f) * 10 ^ f + int (v mod 10 ^ f)"
    by (simp add: number_in_append dec_digits_number)
  also have "\<dots> = int (v div 10 ^ f * 10 ^ f + v mod 10 ^ f)" by simp
  also have "\<dots> = int v" by (simp only: div_mult_mod_eq)
  finally show ?thesis .
qed

lemma render_sample: "render_fixed 6 3 1234567 = ''001234.567''"
  by (simp add: render_fixed_def dec_digits_numeral)

lemma unat_reading: "v < 10 ^ 9 \<Longrightarrow> unat (word_of_int (int v) :: 32 word) = v"
  by (simp add: unat_of_nat)

section \<open>What the decoder and the reception guarantee\<close>

definition tariff_processed :: P1Meter where
  "tariff_processed =
     tariff_meter\<lparr>buffer := replicate BUFFER_SIZE NUL @ [NUL], DataReady := False,
                   data := tariff_reading\<rparr>"

lemma tariff_decoded:
  "ProcessTelegram False tariff_meter = Inr (tariff_reading, tariff_processed)"
  by (simp add: tariff_run tariff_processed_def)

definition tariff_body :: string where
  "tariff_body = ''ISK5'' @ [CR, LF] @ ''1-0:1.8.1(001234.567*kWh)'' @ [CR, LF]"

lemma tariff_frame:
  "buffer tariff_meter = CHR ''/'' # tariff_body @ CHR ''!'' # ''216E'' @ ([CR, LF] @ replicate 984 NUL)"
  by (simp add: tariff_meter_def tariff_telegram_def tariff_body_def)

lemma tariff_index:
  "bufferIndex tariff_meter =
     int (length (''/ISK5'' @ [CR]) + length (concat ([] :: string list)) + 27 +
          length (concat [''!216E'' @ [CR, LF]]))"
  by (simp add: tariff_meter_def)

lemma tariff_after:
  "\<forall>l \<in> set [''!216E'' @ [CR, LF]]. text_line l \<and> take 9 l \<noteq> OBIS_TARIFF1_DELIVERED"
  by (simp add: text_line_def)

lemma tariff_layout:
  "buffer tariff_meter =
     (''/ISK5'' @ [CR]) @ LF # concat [] @
     (''1-0:1.8.1(001234.567*kWh)'' @ [CR, LF]) @
     concat [''!216E'' @ [CR, LF]] @ replicate 984 NUL"
  by (simp add: tariff_meter_def tariff_telegram_def)

text \<open>
  C7. A telegram is held in the buffer: a header line, lines before, the line
  \<open>1-0:1.8.1(001234.567*kWh)\<close> with its line ending, lines after (the trailer line
  among them, none of them with the code \<open>1-0:1.8.1\<close> again), and \<open>bufferIndex\<close> at
  the last byte received. Then every reading that \<open>ProcessTelegram\<close> returns has
  \<open>DeliveredTariff1 = 1234567\<close>: the digits before the decimal point followed by the
  digits after it, read as one unsigned number.
\<close>

theorem tariff1_sample_decoded:
  assumes run: "ProcessTelegram sc m = Inr (d, m')"
    and buf: "buffer m = hdr @ LF # concat before @
                (''1-0:1.8.1(001234.567*kWh)'' @ [CR, LF]) @ concat after @ rest"
    and len: "length (buffer m) = BUFFER_SIZE + 1"
    and hdr: "LF \<notin> set hdr" "NUL \<notin> set hdr"
    and before: "\<forall>l \<in> set before. text_line l"
    and after: "\<forall>l \<in> set after. text_line l \<and> take 9 l \<noteq> OBIS_TARIFF1_DELIVERED"
    and bi: "bufferIndex m =
               int (length hdr + length (concat before) + 27 + length (concat after))"
  shows "DeliveredTariff1 d = 1234567"
proof -
  have b: "buffer m = hdr @ LF # concat before @
             (OBIS_TARIFF1_DELIVERED @ CHR ''('' # ''001234'' @ CHR ''.'' # ''567'' @
                (''*kWh)'' @ [CR]) @ [LF]) @ concat after @ rest"
    using buf by simp
  have i: "bufferIndex m =
           int (length hdr + length (concat before) + (21 + length (''*kWh)'' @ [CR])) +
                length (concat after))"
    using bi by simp
  have "DeliveredTariff1 d = word_of_int (number_in 10 (''001234'' @ ''567''))"
    using run b len hdr before after
  proof (rule tariff1_decoded)
    show "LF \<notin> set (''*kWh)'' @ [CR])" "NUL \<notin> set (''*kWh)'' @ [CR])" by simp_all
    show "digits_in 10 ''001234''" "digits_in 10 ''567''"
      by (simp_all add: digits_in_def digit_of_def)
    show "length ''001234'' = 6" "length ''567'' = 3" by simp_all
    show "bufferIndex m =
           int (length hdr + length (concat before) + (21 + length (''*kWh)'' @ [CR])) +
                length (concat after))"
      by (rule i)
  qed
  then show ?thesis by (simp add: number_in_def digit_of_def)
qed

theorem tariff1_sample_decoded_witness:
  "ProcessTelegram False tariff_meter = Inr (tariff_reading, tariff_processed) \<and>
   DeliveredTariff1 tariff_reading = 1234567"
proof -
  have "DeliveredTariff1 tariff_reading = 1234567"
    by (rule tariff1_sample_decoded[OF tariff_decoded tariff_layout tariff_length _ _ _
          tariff_after tariff_index]) simp_all
  then show ?thesis by (simp add: tariff_decoded)
qed

text \<open>
  The round trip of one field. A value \<open>v\<close> of at most nine decimal digits is written
  as six digits, a decimal point and three digits (\<open>render_fixed 6 3 v\<close>) in a line with
  the code \<open>1-0:1.8.1\<close>, and the line is in a telegram of text lines. Then the reading
  that \<open>ProcessTelegram\<close> returns has \<open>DeliveredTariff1 = v\<close>.
\<close>

lemma tariff1_round_trip:
  assumes v: "v < 10 ^ 9"
    and run: "ProcessTelegram sc m = Inr (d, m')"
    and buf: "buffer m = hdr @ LF # concat before @
                (OBIS_TARIFF1_DELIVERED @ CHR ''('' # render_fixed 6 3 v @ trail @ [LF]) @
                concat after @ rest"
    and len: "length (buffer m) = BUFFER_SIZE + 1"
    and hdr: "LF \<notin> set hdr" "NUL \<notin> set hdr"
    and before: "\<forall>l \<in> set before. text_line l"
    and after: "\<forall>l \<in> set after. text_line l \<and> take 9 l \<noteq> OBIS_TARIFF1_DELIVERED"
    and trail: "LF \<notin> set trail" "NUL \<notin> set trail"
    and bi: "bufferIndex m =
               int (length hdr + length (concat before) + (21 + length trail) +
                    length (concat after))"
  shows "unat (DeliveredTariff1 d) = v"
proof -
  let ?W = "dec_digits 6 (v div 10 ^ 3)" and ?F = "dec_digits 3 (v mod 10 ^ 3)"
  have b: "buffer m = hdr @ LF # concat before @
             (OBIS_TARIFF1_DELIVERED @ CHR ''('' # ?W @ CHR ''.'' # ?F @ trail @ [LF]) @
             concat after @ rest"
    using buf by (simp add: render_fixed_def)
  have "DeliveredTariff1 d = word_of_int (number_in 10 (?W @ ?F))"
    using run b len hdr before after trail
  proof (rule tariff1_decoded)
    show "digits_in 10 ?W" "digits_in 10 ?F" by (rule dec_digits_in)+
    show "length ?W = 6" "length ?F = 3" by simp_all
    show "bufferIndex m =
               int (length hdr + length (concat before) + (21 + length trail) +
                    length (concat after))"
      by (rule bi)
  qed
  moreover have "number_in 10 (?W @ ?F) = int v"
    using v by (intro render_number) simp
  ultimately show ?thesis using unat_reading[OF v] by simp
qed

lemma tariff1_round_trip_sample:
  "render_fixed 6 3 1234567 = ''001234.567'' \<and>
   ProcessTelegram False tariff_meter = Inr (tariff_reading, tariff_processed) \<and>
   unat (DeliveredTariff1 tariff_reading) = 1234567"
proof -
  have b: "buffer tariff_meter =
     (''/ISK5'' @ [CR]) @ LF # concat [] @
     (OBIS_TARIFF1_DELIVERED @ CHR ''('' # render_fixed 6 3 1234567 @ (''*kWh)'' @ [CR]) @ [LF]) @
     concat [''!216E'' @ [CR, LF]] @ replicate 984 NUL"
    by (simp add: render_sample tariff_meter_def tariff_telegram_def)
  have i: "bufferIndex tariff_meter =
     int (length (''/ISK5'' @ [CR]) + length (concat ([] :: string list)) +
          (21 + length (''*kWh)'' @ [CR])) + length (concat [''!216E'' @ [CR, LF]]))"
    by (simp add: tariff_meter_def)
  have "unat (DeliveredTariff1 tariff_reading) = 1234567"
    by (rule tariff1_round_trip[OF _ tariff_decoded b tariff_length _ _ _
          tariff_after _ _ i]) simp_all
  then show ?thesis by (simp add: tariff_decoded render_sample)
qed

text \<open>
  The fixed-point fields that a branch of the chain assigns, each with its code, its
  numbers of digits before and behind the decimal point, and its member of the
  reading. A line with one of these codes and a value in the format of its field is
  decoded to that value; \<open>PowerProduced\<close> is not among them.
\<close>

definition assigned_fixed_point ::
  "(string \<times> nat \<times> nat \<times> (32 word \<Rightarrow> P1Data \<Rightarrow> P1Data)) list" where
  "assigned_fixed_point =
   [ (OBIS_TARIFF1_DELIVERED, 6, 3, \<lambda>v d. d\<lparr>DeliveredTariff1 := v\<rparr>),
     (OBIS_TARIFF2_DELIVERED, 6, 3, \<lambda>v d. d\<lparr>DeliveredTariff2 := v\<rparr>),
     (OBIS_TARIFF1_PRODUCED, 6, 3, \<lambda>v d. d\<lparr>ProducedTariff1 := v\<rparr>),
     (OBIS_TARIFF2_PRODUCED, 6, 3, \<lambda>v d. d\<lparr>ProducedTariff2 := v\<rparr>),
     (OBIS_ACTUAL_DELIVERED, 2, 3, \<lambda>v d. d\<lparr>ActualDelivered := v\<rparr>),
     (OBIS_ACTUAL_PRODUCED, 2, 3, \<lambda>v d. d\<lparr>ActualProduced := v\<rparr>),
     (OBIS_VOLTAGE_L1, 3, 1, \<lambda>v d. d\<lparr>Voltage := (Voltage d)[0 := v]\<rparr>),
     (OBIS_VOLTAGE_L2, 3, 1, \<lambda>v d. d\<lparr>Voltage := (Voltage d)[1 := v]\<rparr>),
     (OBIS_VOLTAGE_L3, 3, 1, \<lambda>v d. d\<lparr>Voltage := (Voltage d)[2 := v]\<rparr>),
     (OBIS_POWER_POS_L1, 2, 3, \<lambda>v d. d\<lparr>PowerDelivered := (PowerDelivered d)[0 := v]\<rparr>),
     (OBIS_POWER_POS_L2, 2, 3, \<lambda>v d. d\<lparr>PowerDelivered := (PowerDelivered d)[1 := v]\<rparr>),
     (OBIS_POWER_POS_L3, 2, 3, \<lambda>v d. d\<lparr>PowerDelivered := (PowerDelivered d)[2 := v]\<rparr>) ]"

lemma decode_line_assigned:
  assumes r: "(code, w, f, put) \<in> set assigned_fixed_point"
    and p: "at_offset b (u16 s) = Inr (code @ rest)"
  shows "decode_line b s e d = bnd (fixed_value b s w f) (\<lambda>v. Inr (put v d))"
proof -
  have sw: "\<And>c. startsWith b c s = strncmp_eq (code @ rest) c"
    using startsWith_suffix[OF p] by simp
  from r show ?thesis
    unfolding assigned_fixed_point_def
    by (auto simp: decode_line_def branches_def sw)
qed

lemma decode_line_round_trip:
  assumes r: "(code, w, f, put) \<in> set assigned_fixed_point"
    and v: "v < 10 ^ (w + f)"
    and win: "window b = pre @ code @ CHR ''('' # render_fixed w f v @ tail"
    and s: "int (length pre) = s"
    and bound: "length pre + 21 \<le> BUFFER_SIZE"
  shows "decode_line b s e d = Inr (put (of_nat v) d)"
proof -
  let ?W = "dec_digits w (v div 10 ^ f)" and ?F = "dec_digits f (v mod 10 ^ f)"
  from r have c: "length code = 9 \<or> length code = 10" "CHR ''('' \<notin> set code"
      "NUL \<notin> set code"
    and wf: "w + f \<le> 9" "0 < w"
    by (auto simp: assigned_fixed_point_def)
  have w: "window b = pre @ code @ CHR ''('' # ?W @ CHR ''.'' # ?F @ tail"
    using win by (simp add: render_fixed_def)
  have u: "u16 s = s" using s bound by (auto simp: u16_def BUFFER_SIZE_def)
  have "at_offset b s = Inr (code @ CHR ''('' # ?W @ CHR ''.'' # ?F @ tail)"
    using w s bound by (intro at_offset_append[where pre = pre]) auto
  then have "decode_line b s e d = bnd (fixed_value b s w f) (\<lambda>v. Inr (put v d))"
    using r by (intro decode_line_assigned) (simp_all add: u)
  moreover have "fixed_value b s w f = Inr (word_of_int (number_in 10 (?W @ ?F)))"
    using w s c
  proof (rule fixed_value_text)
    show "digits_in 10 ?W" "digits_in 10 ?F" by (rule dec_digits_in)+
    show "length ?W = w" "length ?F = f" by simp_all
    show "length pre + length code + w + f + 2 \<le> BUFFER_SIZE"
      using bound c(1) wf(1) by auto
  qed (rule wf)+
  moreover have "number_in 10 (?W @ ?F) = int v"
    using v by (rule render_number)
  ultimately show ?thesis by simp
qed

lemma decode_line_voltage_sample:
  "render_fixed 3 1 2301 = ''230.1'' \<and>
   decode_line (''/A'' @ [CR, LF] @ ''1-0:52.7.0(230.1*V)'' @ [CR, LF] @ replicate 1000 NUL) 4 24
     zero_data = Inr (zero_data\<lparr>Voltage := (Voltage zero_data)[1 := 2301]\<rparr>)"
proof -
  have 1: "render_fixed 3 1 2301 = ''230.1''"
    by (simp add: render_fixed_def dec_digits_numeral)
  have 2: "render_fixed 3 (Suc 0) 2301 = ''230.1''"
    using 1 by simp
  have "decode_line (''/A'' @ [CR, LF] @ ''1-0:52.7.0(230.1*V)'' @ [CR, LF] @ replicate 1000 NUL)
          4 24 zero_data =
        Inr (zero_data\<lparr>Voltage := (Voltage zero_data)[1 := of_nat 2301]\<rparr>)"
    by (rule decode_line_round_trip[where code = OBIS_VOLTAGE_L2 and w = 3 and f = 1
          and pre = "''/A'' @ [CR, LF]" and tail = "''*V)'' @ [CR, LF] @ replicate 1000 NUL"])
       (simp_all add: assigned_fixed_point_def 2 window_id BUFFER_SIZE_def)
  then show ?thesis using 1 by (simp only: of_nat_numeral simp_thms)
qed

text \<open>
  The trailer of a telegram of text. The buffer holds the start marker, a body without
  \<open>!\<close> and without NUL, the terminator \<open>!\<close>, and four hexadecimal digits \<open>t\<close>. Then
  in every reading that
  \<open>ProcessTelegram\<close> returns the field \<open>CRC\<close> is the number that \<open>t\<close> writes in base
  16, upper or lower case, and \<open>ValidCRC\<close> holds exactly when \<open>CRC16_IBM_REVERSED\<close> over
  the bytes from the start marker to the terminator, both included, returns that
  number.
\<close>

lemma trailer_of_text_telegram:
  assumes run: "ProcessTelegram sc m = Inr (d, m')"
    and buf: "buffer m = CHR ''/'' # body @ CHR ''!'' # t @ rest"
    and len: "length (buffer m) = BUFFER_SIZE + 1"
    and body: "CHR ''!'' \<notin> set body" "NUL \<notin> set body"
    and t: "length t = 4" "\<forall>c \<in> set t. spec_hex_digit c \<noteq> None"
  shows "unat (CRC d) = spec_hex_value t \<and>
         (ValidCRC d \<longleftrightarrow>
            CRC16_IBM_REVERSED sc (CHR ''/'' # body @ [CHR ''!'']) (length body + 2) =
              Inr (CRC d))"
proof -
  from run obtain d0 crc valid where c: "check_crc sc (buffer m) = Inr (crc, valid)"
    and d: "d = d0\<lparr>CRC := crc, ValidCRC := valid\<rparr>"
    by (rule ProcessTelegram_fields)
  have b: "buffer m = (CHR ''/'' # body) @ CHR ''!'' # t @ rest" using buf by simp
  have "\<exists>crc. check_crc sc (buffer m) =
               Inr (crc, crc = foldl (crc_byte sc) 0 ((CHR ''/'' # body) @ [CHR ''!''])) \<and>
             unat crc = spec_hex_value t"
    using b len _ _ t by (rule check_crc_trailer) (use body in simp_all)
  with c have u: "unat crc = spec_hex_value t"
    and v: "valid \<longleftrightarrow> crc = foldl (crc_byte sc) 0 ((CHR ''/'' # body) @ [CHR ''!''])"
    by auto
  have "CRC16_IBM_REVERSED sc (CHR ''/'' # body @ [CHR ''!'']) (length body + 2) =
        Inr (foldl (crc_byte sc) 0 ((CHR ''/'' # body) @ [CHR ''!'']))"
    by (subst CRC16_foldl) simp_all
  then show ?thesis using u v d by auto
qed

lemma trailer_of_sample_telegram:
  "ProcessTelegram False tariff_meter = Inr (tariff_reading, tariff_processed) \<and>
   unat (CRC tariff_reading) = spec_hex_value ''216E'' \<and>
   (ValidCRC tariff_reading \<longleftrightarrow>
      CRC16_IBM_REVERSED False (CHR ''/'' # tariff_body @ [CHR ''!'']) (length tariff_body + 2) =
        Inr (CRC tariff_reading))"
proof -
  have "unat (CRC tariff_reading) = spec_hex_value ''216E'' \<and>
   (ValidCRC tariff_reading \<longleftrightarrow>
      CRC16_IBM_REVERSED False (CHR ''/'' # tariff_body @ [CHR ''!'']) (length tariff_body + 2) =
        Inr (CRC tariff_reading))"
    by (rule trailer_of_text_telegram[OF tariff_decoded tariff_frame tariff_length])
       (simp_all add: tariff_body_def spec_hex_digit_def)
  then show ?thesis by (simp only: tariff_decoded simp_thms)
qed

text \<open>
  The same against the reference checksum of the specification, where plain \<open>char\<close> is
  unsigned or the bytes from the start marker to the terminator are below 128.
\<close>

lemma trailer_of_text_telegram_reference:
  assumes run: "ProcessTelegram sc m = Inr (d, m')"
    and buf: "buffer m = CHR ''/'' # body @ CHR ''!'' # t @ rest"
    and len: "length (buffer m) = BUFFER_SIZE + 1"
    and body: "CHR ''!'' \<notin> set body" "NUL \<notin> set body"
    and t: "length t = 4" "\<forall>c \<in> set t. spec_hex_digit c \<noteq> None"
    and plain: "\<not> sc \<or> (\<forall>c \<in> set body. (of_char c :: nat) < 128)"
  shows "unat (CRC d) = spec_hex_value t \<and>
         (ValidCRC d \<longleftrightarrow> spec_crc16 (CHR ''/'' # body @ [CHR ''!'']) = CRC d)"
proof -
  let ?r = "CHR ''/'' # body @ [CHR ''!'']"
  have "\<not> sc \<or> (\<forall>c \<in> set (take (length body + 2) ?r). (of_char c :: nat) < 128)"
    using plain by auto
  then have "CRC16_IBM_REVERSED sc ?r (length body + 2) =
             Inr (spec_crc16 (take (length body + 2) ?r))"
    by (intro CRC16_is_reference) simp_all
  then have "CRC16_IBM_REVERSED sc ?r (length body + 2) = Inr (spec_crc16 ?r)"
    by simp
  with trailer_of_text_telegram[OF run buf len body t] show ?thesis by auto
qed

text \<open>
  C10, amended. A call of \<open>ReceiveTelegram\<close> on an object that is not ready returns with
  \<open>DataReady\<close> set, and \<open>ProcessTelegram\<close> then returns a reading. Afterwards \<open>DataReady\<close>
  is false and the first \<open>BUFFER_SIZE\<close> bytes of the buffer are zero; the last byte of
  the allocation of \<open>BUFFER_SIZE + 1\<close> bytes, which \<open>memset\<close> does not reach, keeps its
  value.
  \<open>GetBufferLength\<close> is still the index at which the last byte of the telegram was
  stored, which is not 0, and it stays so over a call of \<open>ReceiveTelegram\<close> that reads
  a byte other than the start marker.
\<close>

theorem write_index_kept_by_ProcessTelegram:
  assumes rec: "ReceiveTelegram below m0 serial = Returned m unread"
    and idle: "\<not> DataReady m0" and ready: "DataReady m"
    and run: "ProcessTelegram sc m = Inr (d, m')"
    and other: "c \<noteq> CHR ''/''"
  shows "\<not> DataReady m' \<and>
         take BUFFER_SIZE (GetBuffer m') = replicate BUFFER_SIZE NUL \<and>
         drop BUFFER_SIZE (GetBuffer m') = drop BUFFER_SIZE (GetBuffer m) \<and>
         GetBufferLength m' = bufferIndex m \<and> 0 < GetBufferLength m' \<and>
         ReceiveTelegram below m' (c # cs) = Returned (cts_assert m') cs \<and>
         GetBufferLength (cts_assert m') = bufferIndex m"
proof -
  from run obtain d0 crc valid where cl: "clear_buffer (buffer m) = Inr (buffer m')"
    and m': "m' = m\<lparr>buffer := buffer m', DataReady := False, data := d\<rparr>"
    by (rule ProcessTelegram_fields)
  have i: "bufferIndex m' = bufferIndex m" and r: "\<not> DataReady m'"
    by (subst m', simp)+
  from cl have b: "buffer m' = replicate BUFFER_SIZE NUL @ drop BUFFER_SIZE (buffer m)"
    by (auto simp: clear_buffer_def split: if_splits)
  have p: "1 \<le> bufferIndex m" using rec ready idle by (rule ReceiveTelegram_index)
  show ?thesis
    using i r p other
    by (simp add: GetBuffer_def GetBufferLength_def b ReceiveTelegram_idle)
qed

theorem write_index_kept_by_ProcessTelegram_witness:
  "ReceiveTelegram (\<lambda>k. NUL) (P1Meter_serial NUL zero_data) tariff_telegram =
     Returned tariff_meter [] \<and>
   ProcessTelegram False tariff_meter = Inr (tariff_reading, tariff_processed) \<and>
   \<not> DataReady tariff_processed \<and>
   take BUFFER_SIZE (GetBuffer tariff_processed) = replicate BUFFER_SIZE NUL \<and>
   GetBufferLength tariff_processed = 40 \<and>
   ReceiveTelegram (\<lambda>k. NUL) tariff_processed ''x'' = Returned (cts_assert tariff_processed) []"
proof -
  have a: "\<not> DataReady (P1Meter_serial NUL zero_data)" by (simp add: P1Meter_serial_def)
  have b: "DataReady tariff_meter" "bufferIndex tariff_meter = 40"
    by (simp_all add: tariff_meter_def)
  have c: "CHR ''x'' \<noteq> CHR ''/''" by simp
  from write_index_kept_by_ProcessTelegram[OF tariff_received a b(1) tariff_decoded c, of "[]"]
  show ?thesis by (simp only: tariff_received tariff_decoded b(2) simp_thms)
qed

text \<open>
  Reception where the bytes below the buffer are not \<open>!\<close>. The port delivers the start
  marker, a body without \<open>!\<close>, a \<open>!\<close>, five bytes \<open>t\<close> and one byte \<open>z\<close>, whatever
  these six bytes are; the object is not ready before, and the five bytes below the
  buffer, which the test \<open>buffer[bufferIndex - 6] == '!'\<close> reads for the first five
  bytes after the start marker, are not \<open>!\<close>. Then after any shorter part of the
  stream \<open>ReceiveTelegram\<close> is still in its loop and the object is not ready; with
  \<open>z\<close>, the sixth byte after the first \<open>!\<close>, the call returns, the object is ready,
  the buffer holds the stream, and \<open>bufferIndex\<close> is the index of \<open>z\<close>. What the port
  holds after \<open>z\<close> is not read.
\<close>

lemma completion_six_bytes_behind:
  assumes idle: "\<not> DataReady m0" and len: "length (buffer m0) = BUFFER_SIZE + 1"
    and under: "\<forall>k \<in> {1..5}. below k \<noteq> CHR ''!''"
    and body: "CHR ''!'' \<notin> set body" and t: "length t = 5"
    and fits: "length body + 8 \<le> BUFFER_SIZE + 1"
    and serial: "serial = CHR ''/'' # body @ CHR ''!'' # t @ [z]"
    and n: "1 \<le> n" "n < length serial"
  shows "(\<exists>m. ReceiveTelegram below m0 (take n serial) = Waiting m \<and> \<not> DataReady m \<and>
              bufferIndex m = int n) \<and>
         (\<exists>m. ReceiveTelegram below m0 (serial @ unread) = Returned m unread \<and>
              DataReady m \<and> take (length serial) (buffer m) = serial \<and>
              bufferIndex m = int (length serial) - 1)"
proof
  let ?xs = "body @ CHR ''!'' # t"
  let ?k = "n - 1"
  have "take ?k (?xs @ [z]) = take ?k ?xs @ take (?k - length ?xs) [z]"
    by (rule take_append)
  moreover have "?k - length ?xs = 0" using n t by (simp add: serial)
  ultimately have "take ?k (?xs @ [z]) = take ?k ?xs"
    by (simp only: take_0 append_Nil2)
  then have tk: "take n serial = CHR ''/'' # take ?k ?xs"
    using n by (cases n) (simp_all add: serial)
  have sp: "take ?k ?xs = take ?k body @ take (?k - length body) (CHR ''!'' # t)"
    by simp
  have quiet: "\<forall>j < length (take ?k ?xs).
                 behind below (CHR ''/'' # take ?k ?xs) (1 + j) \<noteq> CHR ''!''"
  proof (intro allI impI)
    fix j
    assume j: "j < length (take ?k ?xs)"
    have "behind below ((CHR ''/'' # take ?k body) @
             take (?k - length body) (CHR ''!'' # t)) (1 + j) \<noteq> CHR ''!''"
      using under
    proof (rule behind_clear)
      show "CHR ''!'' \<notin> set (CHR ''/'' # take ?k body)"
        using body by (auto dest: in_set_takeD)
      show "1 + j < length (CHR ''/'' # take ?k body) + 6" using j t by simp
      show "0 < 1 + j" by simp
    qed
    then show "behind below (CHR ''/'' # take ?k ?xs) (1 + j) \<noteq> CHR ''!''"
      by (simp only: sp append_Cons simp_thms)
  qed
  have "ReceiveTelegram below m0 (CHR ''/'' # take ?k ?xs) =
        Waiting ((cts_assert m0)\<lparr>
          buffer := CHR ''/'' # take ?k ?xs @ drop (1 + length (take ?k ?xs)) (buffer m0),
          bufferIndex := int (1 + length (take ?k ?xs))\<rparr>)"
    using idle len _ quiet
    by (rule ReceiveTelegram_run) (use fits t in simp)
  moreover have "int (1 + length (take ?k ?xs)) = int n"
    using n t by (simp add: serial)
  ultimately show "\<exists>m. ReceiveTelegram below m0 (take n serial) = Waiting m \<and>
                       \<not> DataReady m \<and> bufferIndex m = int n"
    using idle by (simp add: tk)
next
  let ?xs = "body @ CHR ''!'' # t"
  let ?m = "cts_release ((cts_assert m0)\<lparr>
              bufferIndex := int (1 + length ?xs),
              buffer := CHR ''/'' # ?xs @ z # drop (2 + length ?xs) (buffer m0),
              DataReady := True\<rparr>)"
  have "ReceiveTelegram below m0 (CHR ''/'' # ?xs @ z # unread) = Returned ?m unread"
    using idle len
  proof (rule ReceiveTelegram_complete)
    show "1 + length ?xs \<le> BUFFER_SIZE" using fits t by simp
    show "\<forall>j<length ?xs. behind below (CHR ''/'' # ?xs) (1 + j) \<noteq> CHR ''!''"
    proof (intro allI impI)
      fix j
      assume j: "j < length ?xs"
      have "behind below ((CHR ''/'' # body) @ (CHR ''!'' # t)) (1 + j) \<noteq> CHR ''!''"
        using under
      proof (rule behind_clear)
        show "CHR ''!'' \<notin> set (CHR ''/'' # body)" using body by simp
        show "1 + j < length (CHR ''/'' # body) + 6" using j t by simp
        show "0 < 1 + j" by simp
      qed
      then show "behind below (CHR ''/'' # ?xs) (1 + j) \<noteq> CHR ''!''" by simp
    qed
    show "behind below (CHR ''/'' # ?xs @ [z]) (1 + length ?xs) = CHR ''!''"
      using t by (simp add: behind_def nth_append)
  qed
  moreover have "serial @ unread = CHR ''/'' # ?xs @ z # unread"
    by (simp add: serial)
  moreover have "take (length serial) (buffer ?m) = serial"
  proof -
    have "buffer ?m = serial @ drop (2 + length ?xs) (buffer m0)"
      by (simp add: serial)
    then show ?thesis by (simp only: take_append take_all order_refl diff_self_eq_0 take_0 append_Nil2)
  qed
  moreover have "bufferIndex ?m = int (length serial) - 1"
    by (simp add: serial)
  ultimately show "\<exists>m. ReceiveTelegram below m0 (serial @ unread) = Returned m unread \<and>
              DataReady m \<and> take (length serial) (buffer m) = serial \<and>
              bufferIndex m = int (length serial) - 1"
    by (intro exI[of _ ?m]) simp
qed

lemma completion_of_sample_telegram:
  "(\<exists>m. ReceiveTelegram (\<lambda>k. NUL) (P1Meter_serial NUL zero_data) (take 40 tariff_telegram) =
          Waiting m \<and> \<not> DataReady m \<and> bufferIndex m = int 40) \<and>
   (\<exists>m. ReceiveTelegram (\<lambda>k. NUL) (P1Meter_serial NUL zero_data) (tariff_telegram @ ''/'') =
          Returned m ''/'' \<and> DataReady m \<and>
          take (length tariff_telegram) (buffer m) = tariff_telegram \<and>
          bufferIndex m = int (length tariff_telegram) - 1)"
proof (rule completion_six_bytes_behind[where body = tariff_body and t = "''216E'' @ [CR]"
         and z = LF])
  show "\<not> DataReady (P1Meter_serial NUL zero_data)" by (simp add: P1Meter_serial_def)
  show "length (buffer (P1Meter_serial NUL zero_data)) = BUFFER_SIZE + 1"
    by (simp add: P1Meter_serial_def)
  show "\<forall>k\<in>{1..5}. NUL \<noteq> CHR ''!''" by simp
  show "CHR ''!'' \<notin> set tariff_body" by (simp add: tariff_body_def)
  show "length (''216E'' @ [CR]) = 5" by simp
  show "length tariff_body + 8 \<le> BUFFER_SIZE + 1" by (simp add: tariff_body_def BUFFER_SIZE_def)
  show "tariff_telegram = CHR ''/'' # tariff_body @ CHR ''!'' # (''216E'' @ [CR]) @ [LF]"
    by (simp add: tariff_telegram_def tariff_body_def)
  show "1 \<le> (40 :: nat)" by simp
  show "40 < length tariff_telegram" by (simp add: tariff_telegram_def)
qed

section \<open>A short telegram with one byte left open\<close>

text \<open>
  A short telegram with one byte left open: a header line \<open>/A\<close>, the byte, \<open>81C1\<close>,
  and the trailer line \<open>!FBEE\<close>. \<open>0x81C1\<close> is the checksum of \<open>/A!\<close>, and \<open>0xFBEE\<close>
  is the checksum of the telegram up to its terminator when the byte is \<open>/\<close>.
\<close>

definition probe_telegram :: "char \<Rightarrow> char list" where
  "probe_telegram x = ''/A'' @ [x] @ ''81C1'' @ [CR, LF] @ ''!FBEE'' @ [CR, LF]"

definition probe_meter :: "char \<Rightarrow> P1Meter" where
  "probe_meter x =
     \<lparr>DataReady = True, buffer = probe_telegram x @ replicate 1009 NUL, bufferIndex = 15,
      data = zero_data, ctsPin = 0xFF, ctsHigh = False, pins = []\<rparr>"

definition probe_reading :: "char \<Rightarrow> 16 word \<Rightarrow> bool \<Rightarrow> P1Data" where
  "probe_reading x crc valid =
     zero_data\<lparr>NumberOfMBusDevices := 0, HeaderInfo := ''A'' @ [x] @ ''81C1'' @ [CR],
               CRC := crc, ValidCRC := valid\<rparr>"

definition probe_processed :: "char \<Rightarrow> 16 word \<Rightarrow> bool \<Rightarrow> P1Meter" where
  "probe_processed x crc valid =
     (probe_meter x)\<lparr>buffer := replicate BUFFER_SIZE NUL @ [NUL], DataReady := False,
                      data := probe_reading x crc valid\<rparr>"

definition zero_below :: "nat \<Rightarrow> char" where
  "zero_below k = NUL"

lemma probe_length: "length (buffer (probe_meter x)) = BUFFER_SIZE + 1"
  by (simp add: probe_meter_def probe_telegram_def BUFFER_SIZE_def)

lemma probe_window: "window (buffer (probe_meter x)) = buffer (probe_meter x)"
  by (simp add: window_id probe_length)


lemma probe_lines: "parse_lines (buffer (probe_meter x)) 15 8 d = Inr d"
proof -
  let ?b = "buffer (probe_meter x)"
  have 1: "parse_lines ?b 15 8 d =
           bnd (decode_line ?b (8 + 1) (8 + int (length (''!FBEE'' @ [CR, LF]))) d)
             (\<lambda>d'. parse_lines ?b 15 (8 + int (length (''!FBEE'' @ [CR, LF]))) d')"
    by (rule parse_lines_step[where pre = "''/A'' @ [x] @ ''81C1'' @ [CR, LF]"
          and rest = "replicate 1009 NUL"])
       (simp_all add: probe_window text_line_def BUFFER_SIZE_def,
        simp add: probe_meter_def probe_telegram_def)
  have 2: "decode_line ?b 9 15 d' = Inr d'" for d'
  proof (rule decode_line_unmatched)
    show "at_offset ?b (u16 9) = Inr (''!FBEE'' @ [CR, LF] @ replicate 1009 NUL)"
      by (rule at_offset_append[where pre = "''/A'' @ [x] @ ''81C1'' @ [CR, LF]"])
         (simp_all add: probe_window u16_def BUFFER_SIZE_def,
          simp add: probe_meter_def probe_telegram_def)
    show "at_offset ?b (u16 (9 + 3)) = Inr (''EE'' @ [CR, LF] @ replicate 1009 NUL)"
      by (rule at_offset_append[where pre = "''/A'' @ [x] @ ''81C1'' @ [CR, LF] @ ''!FB''"])
         (simp_all add: probe_window u16_def BUFFER_SIZE_def,
          simp add: probe_meter_def probe_telegram_def)
  qed (simp_all add: main_codes_def device_codes_def)
  have 3: "parse_lines ?b 15 15 d' = Inr d'" for d'
    by (rule parse_lines_stop) simp
  show ?thesis using 1 2 3 by simp
qed

lemma probe_fields:
  assumes x: "x \<noteq> NUL" "x \<noteq> LF" "x \<noteq> CHR ''-''"
  shows "read_fields (probe_meter x) =
         Inr (zero_data\<lparr>NumberOfMBusDevices := 0, HeaderInfo := ''A'' @ [x] @ ''81C1'' @ [CR]\<rparr>)"
proof -
  let ?b = "buffer (probe_meter x)"
  have 1: "lastIndexOf ?b (CHR ''-'') 0 = Inr (- 1)"
    using x by (simp add: probe_meter_def probe_telegram_def run_buffer cong: bnd_weak_cong)
  have 2: "indexOf ?b (CHR ''/'') 0 = Inr 0"
    by (simp add: probe_meter_def probe_telegram_def run_buffer cong: bnd_weak_cong)
  have 3: "indexOf ?b LF 0 = Inr 8"
    using x by (simp add: probe_meter_def probe_telegram_def run_buffer cong: bnd_weak_cong)
  have 4: "getSubString ?b 1 8 = Inr (''A'' @ [x] @ ''81C1'' @ [CR])"
    using x by (simp add: probe_meter_def probe_telegram_def run_buffer cong: bnd_weak_cong)
  have 5: "\<exists>p. at_offset ?b 0 = Inr p \<and> strtoul p 10 = Inr 0"
    by (simp add: probe_meter_def probe_telegram_def run_buffer run_number
        cong: bnd_weak_cong)
  then obtain p where p: "at_offset ?b 0 = Inr p" "strtoul p 10 = Inr 0"
    by blast
  have bi: "bufferIndex (probe_meter x) = 15" "data (probe_meter x) = zero_data"
    by (simp_all add: probe_meter_def)
  show ?thesis
    by (simp add: read_fields_def 1 2 3 4 p bi probe_lines)
qed

lemma probe_clear:
  "clear_buffer (buffer (probe_meter x)) = Inr (replicate BUFFER_SIZE NUL @ [NUL])"
  by (simp add: clear_buffer_def probe_meter_def probe_telegram_def BUFFER_SIZE_def)

lemma probe_run:
  assumes "x \<noteq> NUL" "x \<noteq> LF" "x \<noteq> CHR ''-''"
    and "check_crc False (buffer (probe_meter x)) = Inr (crc, valid)"
  shows "ProcessTelegram False (probe_meter x) =
         Inr (probe_reading x crc valid, probe_processed x crc valid)"
  using assms(4)
  by (simp add: ProcessTelegram_def probe_fields[OF assms(1-3)] probe_clear Let_def
      probe_reading_def probe_processed_def)

lemma probe_trailer:
  "bnd (strncpy_src (''FBEE'' @ [CR, LF] @ replicate 1009 NUL) 4)
     (\<lambda>copied. bnd (strtoul (copied @ [NUL]) 16) (\<lambda>v. Inr (ucast v :: 16 word))) = Inr 0xFBEE"
proof -
  have c: "strncpy_src (''FBEE'' @ [CR, LF] @ replicate 1009 NUL) 4 = Inr ''FBEE''"
    by (simp add: strncpy_src_numeral)
  have v: "strtoul (''FBEE'' @ [NUL]) 16 = Inr 0xFBEE"
    by (simp add: run_number)
  show ?thesis by (simp only: c v bnd_Inr) simp
qed

lemma probe_crc_open:
  assumes x: "x \<noteq> NUL" "x \<noteq> CHR ''!''"
  shows "check_crc False (buffer (probe_meter x)) =
         Inr (0xFBEE, 0xFBEE = foldl (crc_byte False) 0
                                 ((''/A'' @ [x] @ ''81C1'' @ [CR, LF]) @ [CHR ''!'']))"
proof -
  have b: "buffer (probe_meter x) =
           (''/A'' @ [x] @ ''81C1'' @ [CR, LF]) @
           CHR ''!'' # (''FBEE'' @ [CR, LF] @ replicate 1009 NUL)"
    by (simp add: probe_meter_def probe_telegram_def)
  have c: "strncpy_src (''FBEE'' @ [CR, LF] @ replicate 1009 NUL) 4 = Inr ''FBEE''"
    by (simp add: strncpy_src_numeral)
  have v: "strtoul (''FBEE'' @ [NUL]) 16 = Inr 0xFBEE"
    by (simp add: run_number)
  have l: "check_crc False (buffer (probe_meter x)) =
     bnd (strncpy_src (''FBEE'' @ [CR, LF] @ replicate 1009 NUL) 4) (\<lambda>copied.
     bnd (strtoul (copied @ [NUL]) 16) (\<lambda>v.
       Inr (ucast v, (ucast v :: 16 word) = foldl (crc_byte False) 0
         ((''/A'' @ [x] @ ''81C1'' @ [CR, LF]) @ [CHR ''!'']))))"
    by (rule check_crc_layout[OF b probe_length]) (use x in simp_all)
  show ?thesis
    unfolding l by (simp only: c v bnd_Inr) simp
qed

lemma probe_crc_slash:
  "check_crc False (buffer (probe_meter (CHR ''/''))) = Inr (0xFBEE, True)"
proof -
  have "foldl (crc_byte False) 0 ((''/A'' @ [CHR ''/''] @ ''81C1'' @ [CR, LF]) @ [CHR ''!''])
        = 0xFBEE"
    by (simp add: crc_byte_def crc_bits_8 crc_shift_def POLYNOMIAL_IBM_REVERSED_def
        widen_char_def)
  then show ?thesis by (subst probe_crc_open) simp_all
qed



lemma probe_run_slash:
  "ProcessTelegram False (probe_meter (CHR ''/'')) =
   Inr (probe_reading (CHR ''/'') 0xFBEE True, probe_processed (CHR ''/'') 0xFBEE True)"
  by (rule probe_run[OF _ _ _ probe_crc_slash]) simp_all



lemma probe_received:
  "ReceiveTelegram zero_below (P1Meter_serial NUL zero_data) (probe_telegram (CHR ''/'')) =
   Returned (probe_meter (CHR ''/'')) []"
proof -
  let ?m0 = "P1Meter_serial NUL zero_data"
  let ?xs = "''A/81C1'' @ [CR, LF] @ ''!FBEE'' @ [CR]"
  have "ReceiveTelegram zero_below ?m0 (CHR ''/'' # ?xs @ LF # []) =
        Returned (cts_release ((cts_assert ?m0)\<lparr>
                    bufferIndex := int (1 + length ?xs),
                    buffer := CHR ''/'' # ?xs @ LF # drop (2 + length ?xs) (buffer ?m0),
                    DataReady := True\<rparr>)) []"
  proof (rule ReceiveTelegram_complete)
    show "\<not> DataReady ?m0" by (simp add: P1Meter_serial_def)
    show "length (buffer ?m0) = BUFFER_SIZE + 1" by (simp add: P1Meter_serial_def)
    show "1 + length ?xs \<le> BUFFER_SIZE" by (simp add: BUFFER_SIZE_def)
    show "\<forall>j<length ?xs. behind zero_below (CHR ''/'' # ?xs) (1 + j) \<noteq> CHR ''!''"
    proof -
      have "behind zero_below ((''/A/81C1'' @ [CR, LF]) @ (''!FBEE'' @ [CR])) pos \<noteq> CHR ''!''"
        if "pos < 15" "0 < pos" for pos
        by (rule behind_clear) (use that in \<open>simp_all add: zero_below_def\<close>)
      then show ?thesis by simp
    qed
    show "behind zero_below (CHR ''/'' # ?xs @ [LF]) (1 + length ?xs) = CHR ''!''"
      by (simp add: behind_def)
  qed
  moreover have "cts_release ((cts_assert ?m0)\<lparr>
                    bufferIndex := int (1 + length ?xs),
                    buffer := CHR ''/'' # ?xs @ LF # drop (2 + length ?xs) (buffer ?m0),
                    DataReady := True\<rparr>) = probe_meter (CHR ''/'')"
    by (simp add: cts_release_def cts_assert_def P1Meter_serial_def probe_meter_def
        probe_telegram_def BUFFER_SIZE_def replicate_append_same)
  ultimately show ?thesis by (simp add: probe_telegram_def)
qed

section \<open>A changed byte, and a start marker inside a capture\<close>



text \<open>Where \<open>strchr\<close> finds no \<open>!\<close>, because there is none or because a zero byte comes
  first, \<open>indexOf\<close> returns -1 and the trailer is read outside the buffer.\<close>

lemma strchr_from_absent:
  "c \<notin> set xs \<Longrightarrow>
   strchr_from xs c k = Inr None \<or> strchr_from xs c k = Inl BufferBounds"
  by (induction xs arbitrary: k) auto

lemma indexOf_absent:
  assumes "CHR ''!'' \<notin> set b"
  shows "indexOf b (CHR ''!'') 0 = Inr (- 1) \<or> indexOf b (CHR ''!'') 0 = Inl BufferBounds"
proof -
  have "CHR ''!'' \<notin> set (window b)"
    using assms by (auto simp: window_def dest: in_set_takeD)
  from strchr_from_absent[OF this, of 0] show ?thesis
    by (auto simp: indexOf_def i16_def at_offset_def strchr_def)
qed

lemma check_crc_lost:
  assumes "indexOf b (CHR ''!'') 0 = Inr (- 1) \<or> indexOf b (CHR ''!'') 0 = Inl BufferBounds"
  shows "check_crc sc b = Inl BufferBounds"
  using assms
proof
  assume a: "indexOf b (CHR ''!'') 0 = Inr (- 1)"
  have u: "u16 (- 1) = 65535" by (simp add: u16_def)
  have c: "calcCRC16 sc b 65536 = Inr 0"
    by (simp add: calcCRC16_def u16_def CRC16_foldl)
  have o: "at_offset b 65536 = Inl BufferBounds"
    by (simp add: at_offset_def BUFFER_SIZE_def)
  show ?thesis
    by (simp add: check_crc_def a u Let_def c o)
next
  assume "indexOf b (CHR ''!'') 0 = Inl BufferBounds"
  then show ?thesis by (simp add: check_crc_def)
qed




text \<open>
  C6, as the claim states it, fails: the port delivers \<open>/A\<close> and then, while the call
  is in its loop, \<open>/81C1\<close>, the line ending and the trailer line \<open>!FBEE\<close>. The second
  \<open>/\<close> is stored at index 2 behind the two bytes already there; when the call returns
  the buffer begins with \<open>/A/\<close> and \<open>bufferIndex\<close> is 15, and \<open>ProcessTelegram\<close>
  returns a reading whose header is \<open>A/81C1\<close> and whose checksum is accepted.
\<close>

theorem start_marker_in_capture_kept:
  "ReceiveTelegram zero_below (P1Meter_serial NUL zero_data)
     (''/A'' @ ''/81C1'' @ [CR, LF] @ ''!FBEE'' @ [CR, LF]) =
     Returned (probe_meter (CHR ''/'')) [] \<and>
   take 3 (buffer (probe_meter (CHR ''/''))) = ''/A/'' \<and>
   bufferIndex (probe_meter (CHR ''/'')) = 15 \<and>
   ProcessTelegram False (probe_meter (CHR ''/'')) =
     Inr (probe_reading (CHR ''/'') 0xFBEE True, probe_processed (CHR ''/'') 0xFBEE True) \<and>
   HeaderInfo (probe_reading (CHR ''/'') 0xFBEE True) = ''A/81C1'' @ [CR] \<and>
   ValidCRC (probe_reading (CHR ''/'') 0xFBEE True)"
proof -
  have t: "''/A'' @ ''/81C1'' @ [CR, LF] @ ''!FBEE'' @ [CR, LF] = probe_telegram (CHR ''/'')"
    by (simp add: probe_telegram_def)
  have 1: "ReceiveTelegram zero_below (P1Meter_serial NUL zero_data)
             (''/A'' @ ''/81C1'' @ [CR, LF] @ ''!FBEE'' @ [CR, LF]) =
           Returned (probe_meter (CHR ''/'')) []"
    unfolding t by (rule probe_received)
  have 2: "take 3 (buffer (probe_meter (CHR ''/''))) = ''/A/''"
    and 3: "bufferIndex (probe_meter (CHR ''/'')) = 15"
    by (simp_all add: probe_meter_def probe_telegram_def)
  have 4: "HeaderInfo (probe_reading (CHR ''/'') 0xFBEE True) = ''A/81C1'' @ [CR]"
    and 5: "ValidCRC (probe_reading (CHR ''/'') 0xFBEE True)"
    by (simp_all add: probe_reading_def)
  show ?thesis
    by (intro conjI 1 2 3 4 5 probe_run_slash)
qed

text \<open>
  C6, amended. The object is not ready and the port delivers a start marker, bytes
  \<open>pre\<close>, a second start marker and bytes \<open>post\<close>, none of them \<open>!\<close> (and no \<open>!\<close> in
  the five bytes below the buffer). Then the call is in its loop, the buffer holds all
  these bytes in the order received, the second start marker among them at its place,
  and \<open>bufferIndex\<close> is their number: nothing is discarded and the capture goes on.
\<close>

theorem start_marker_in_capture_stored:
  assumes idle: "\<not> DataReady m0" and len: "length (buffer m0) = BUFFER_SIZE + 1"
    and under: "\<forall>k \<in> {1..5}. below k \<noteq> CHR ''!''"
    and pre: "CHR ''!'' \<notin> set pre" and post: "CHR ''!'' \<notin> set post"
    and fits: "length pre + length post + 2 \<le> BUFFER_SIZE + 1"
  shows "\<exists>m. ReceiveTelegram below m0 (CHR ''/'' # pre @ CHR ''/'' # post) = Waiting m \<and>
              \<not> DataReady m \<and>
              take (length pre + length post + 2) (buffer m) = CHR ''/'' # pre @ CHR ''/'' # post \<and>
              bufferIndex m = int (length pre + length post + 2)"
proof -
  let ?xs = "pre @ CHR ''/'' # post"
  let ?m = "(cts_assert m0)\<lparr>buffer := CHR ''/'' # ?xs @ drop (1 + length ?xs) (buffer m0),
                               bufferIndex := int (1 + length ?xs)\<rparr>"
  have "ReceiveTelegram below m0 (CHR ''/'' # ?xs) = Waiting ?m"
    using idle len
  proof (rule ReceiveTelegram_run)
    show "1 + length ?xs \<le> BUFFER_SIZE + 1" using fits by simp
    show "\<forall>j<length ?xs. behind below (CHR ''/'' # ?xs) (1 + j) \<noteq> CHR ''!''"
    proof (intro allI impI)
      fix j
      assume j: "j < length ?xs"
      have "behind below ((CHR ''/'' # ?xs) @ []) (1 + j) \<noteq> CHR ''!''"
        using under
      proof (rule behind_clear)
        show "CHR ''!'' \<notin> set (CHR ''/'' # ?xs)" using pre post by simp
        show "1 + j < length (CHR ''/'' # ?xs) + 6" using j by simp
        show "0 < 1 + j" by simp
      qed
      then show "behind below (CHR ''/'' # ?xs) (1 + j) \<noteq> CHR ''!''" by simp
    qed
  qed
  moreover have "take (length pre + length post + 2) (buffer ?m) = CHR ''/'' # ?xs"
  proof -
    have "buffer ?m = (CHR ''/'' # ?xs) @ drop (1 + length ?xs) (buffer m0)" by simp
    moreover have "length pre + length post + 2 = length (CHR ''/'' # ?xs)" by simp
    ultimately show ?thesis
      by (simp only: take_append take_all order_refl diff_self_eq_0 take_0 append_Nil2)
  qed
  moreover have "bufferIndex ?m = int (length pre + length post + 2)" by simp
  moreover have "\<not> DataReady ?m" using idle by simp
  ultimately show ?thesis by (intro exI[of _ ?m]) simp
qed

theorem start_marker_in_capture_stored_witness:
  "\<exists>m. ReceiveTelegram zero_below (P1Meter_serial NUL zero_data)
          (CHR ''/'' # ''A'' @ CHR ''/'' # ''81C1'') = Waiting m \<and>
        \<not> DataReady m \<and>
        take (length ''A'' + length ''81C1'' + 2) (buffer m) = CHR ''/'' # ''A'' @ CHR ''/'' # ''81C1'' \<and>
        bufferIndex m = int (length ''A'' + length ''81C1'' + 2)"
proof (rule start_marker_in_capture_stored)
  show "\<not> DataReady (P1Meter_serial NUL zero_data)" by (simp add: P1Meter_serial_def)
  show "length (buffer (P1Meter_serial NUL zero_data)) = BUFFER_SIZE + 1"
    by (simp add: P1Meter_serial_def)
  show "\<forall>k\<in>{1..5}. zero_below k \<noteq> CHR ''!''" by (simp add: zero_below_def)
  show "CHR ''!'' \<notin> set ''A''" "CHR ''!'' \<notin> set ''81C1''" by simp_all
  show "length ''A'' + length ''81C1'' + 2 \<le> BUFFER_SIZE + 1" by (simp add: BUFFER_SIZE_def)
qed

section \<open>The produced power of a phase\<close>

text \<open>A telegram with a line of the code \<open>1-0:22.7.0\<close>, the produced power of the
  first phase, and the object that holds it when the reception is complete.\<close>

definition neg_power_telegram :: "char list" where
  "neg_power_telegram =
     ''/ISK5'' @ [CR, LF] @ ''1-0:22.7.0(01.234*kW)'' @ [CR, LF] @ ''!5FF8'' @ [CR, LF]"

definition neg_power_meter :: P1Meter where
  "neg_power_meter =
     \<lparr>DataReady = True, buffer = neg_power_telegram @ replicate 988 NUL, bufferIndex = 36,
      data = zero_data, ctsPin = 0xFF, ctsHigh = False, pins = []\<rparr>"

definition neg_power_reading :: P1Data where
  "neg_power_reading =
     zero_data\<lparr>NumberOfMBusDevices := 0, HeaderInfo := ''ISK5'' @ [CR],
               CRC := 0x5FF8, ValidCRC := True\<rparr>"

definition neg_power_processed :: P1Meter where
  "neg_power_processed =
     neg_power_meter\<lparr>buffer := replicate BUFFER_SIZE NUL @ [NUL], DataReady := False,
                      data := neg_power_reading\<rparr>"

lemma neg_power_length: "length (buffer neg_power_meter) = BUFFER_SIZE + 1"
  by (simp add: neg_power_meter_def neg_power_telegram_def BUFFER_SIZE_def)

lemma neg_power_window: "window (buffer neg_power_meter) = buffer neg_power_meter"
  by (simp add: window_id neg_power_length)

lemma neg_power_lines: "parse_lines (buffer neg_power_meter) 36 6 d = Inr d"
proof -
  let ?b = "buffer neg_power_meter"
  have 1: "parse_lines ?b 36 6 d =
           bnd (decode_line ?b (6 + 1) (6 + int (length (''1-0:22.7.0(01.234*kW)'' @ [CR, LF]))) d)
             (\<lambda>d'. parse_lines ?b 36 (6 + int (length (''1-0:22.7.0(01.234*kW)'' @ [CR, LF]))) d')"
    by (rule parse_lines_step[where pre = "''/ISK5'' @ [CR, LF]"
          and rest = "''!5FF8'' @ [CR, LF] @ replicate 988 NUL"])
       (simp_all add: neg_power_window text_line_def BUFFER_SIZE_def,
        simp add: neg_power_meter_def neg_power_telegram_def)
  have 2: "decode_line ?b 7 29 d' = Inr d'" for d'
  proof (rule decode_line_unmatched)
    show "at_offset ?b (u16 7) =
          Inr (''1-0:22.7.0(01.234*kW)'' @ [CR, LF] @ ''!5FF8'' @ [CR, LF] @ replicate 988 NUL)"
      by (rule at_offset_append[where pre = "''/ISK5'' @ [CR, LF]"])
         (simp_all add: neg_power_window u16_def BUFFER_SIZE_def,
          simp add: neg_power_meter_def neg_power_telegram_def)
    show "at_offset ?b (u16 (7 + 3)) =
          Inr ('':22.7.0(01.234*kW)'' @ [CR, LF] @ ''!5FF8'' @ [CR, LF] @ replicate 988 NUL)"
      by (rule at_offset_append[where pre = "''/ISK5'' @ [CR, LF] @ ''1-0''"])
         (simp_all add: neg_power_window u16_def BUFFER_SIZE_def,
          simp add: neg_power_meter_def neg_power_telegram_def)
  qed (simp_all add: main_codes_def device_codes_def)
  have 3: "parse_lines ?b 36 29 d' =
           bnd (decode_line ?b (29 + 1) (29 + int (length (''!5FF8'' @ [CR, LF]))) d')
             (\<lambda>d''. parse_lines ?b 36 (29 + int (length (''!5FF8'' @ [CR, LF]))) d'')" for d'
    by (rule parse_lines_step[where
          pre = "''/ISK5'' @ [CR, LF] @ ''1-0:22.7.0(01.234*kW)'' @ [CR, LF]"
          and rest = "replicate 988 NUL"])
       (simp_all add: neg_power_window text_line_def BUFFER_SIZE_def,
        simp add: neg_power_meter_def neg_power_telegram_def)
  have 4: "decode_line ?b 30 36 d' = Inr d'" for d'
  proof (rule decode_line_unmatched)
    show "at_offset ?b (u16 30) = Inr (''!5FF8'' @ [CR, LF] @ replicate 988 NUL)"
      by (rule at_offset_append[where
            pre = "''/ISK5'' @ [CR, LF] @ ''1-0:22.7.0(01.234*kW)'' @ [CR, LF]"])
         (simp_all add: neg_power_window u16_def BUFFER_SIZE_def,
          simp add: neg_power_meter_def neg_power_telegram_def)
    show "at_offset ?b (u16 (30 + 3)) = Inr (''F8'' @ [CR, LF] @ replicate 988 NUL)"
      by (rule at_offset_append[where
            pre = "''/ISK5'' @ [CR, LF] @ ''1-0:22.7.0(01.234*kW)'' @ [CR, LF] @ ''!5F''"])
         (simp_all add: neg_power_window u16_def BUFFER_SIZE_def,
          simp add: neg_power_meter_def neg_power_telegram_def)
  qed (simp_all add: main_codes_def device_codes_def)
  have 5: "parse_lines ?b 36 36 d' = Inr d'" for d'
    by (rule parse_lines_stop) simp
  show ?thesis using 1 2 3 4 5 by simp
qed

lemma neg_power_fields:
  "read_fields neg_power_meter =
   Inr (zero_data\<lparr>NumberOfMBusDevices := 0, HeaderInfo := ''ISK5'' @ [CR]\<rparr>)"
proof -
  let ?b = "buffer neg_power_meter"
  have 1: "lastIndexOf ?b (CHR ''-'') 0 = Inr 8"
    by (simp add: neg_power_meter_def neg_power_telegram_def run_buffer cong: bnd_weak_cong)
  have 2: "indexOf ?b (CHR ''/'') 0 = Inr 0"
    by (simp add: neg_power_meter_def neg_power_telegram_def run_buffer cong: bnd_weak_cong)
  have 3: "indexOf ?b LF 0 = Inr 6"
    by (simp add: neg_power_meter_def neg_power_telegram_def run_buffer cong: bnd_weak_cong)
  have 4: "getSubString ?b 1 6 = Inr (''ISK5'' @ [CR])"
    by (simp add: neg_power_meter_def neg_power_telegram_def run_buffer cong: bnd_weak_cong)
  have 5: "\<exists>p. at_offset ?b 9 = Inr p \<and> strtoul p 10 = Inr 0"
    by (simp add: neg_power_meter_def neg_power_telegram_def run_buffer run_number
        cong: bnd_weak_cong)
  then obtain p where p: "at_offset ?b 9 = Inr p" "strtoul p 10 = Inr 0"
    by blast
  have bi: "bufferIndex neg_power_meter = 36" "data neg_power_meter = zero_data"
    by (simp_all add: neg_power_meter_def)
  show ?thesis
    by (simp add: read_fields_def 1 2 3 4 p bi neg_power_lines)
qed

lemma neg_power_crc: "check_crc False (buffer neg_power_meter) = Inr (0x5FF8, True)"
proof -
  have b: "buffer neg_power_meter =
           (''/ISK5'' @ [CR, LF] @ ''1-0:22.7.0(01.234*kW)'' @ [CR, LF]) @
           CHR ''!'' # (''5FF8'' @ [CR, LF] @ replicate 988 NUL)"
    by (simp add: neg_power_meter_def neg_power_telegram_def)
  have c: "strncpy_src (''5FF8'' @ [CR, LF] @ replicate 988 NUL) 4 = Inr ''5FF8''"
    by (simp add: strncpy_src_numeral)
  have v: "strtoul (''5FF8'' @ [NUL]) 16 = Inr 0x5FF8"
    by (simp add: run_number)
  have f: "foldl (crc_byte False) 0
             ((''/ISK5'' @ [CR, LF] @ ''1-0:22.7.0(01.234*kW)'' @ [CR, LF]) @ [CHR ''!''])
           = 0x5FF8"
    by (simp add: crc_byte_def crc_bits_8 crc_shift_def POLYNOMIAL_IBM_REVERSED_def
        widen_char_def)
  have l: "check_crc False (buffer neg_power_meter) =
     bnd (strncpy_src (''5FF8'' @ [CR, LF] @ replicate 988 NUL) 4) (\<lambda>copied.
     bnd (strtoul (copied @ [NUL]) 16) (\<lambda>v.
       Inr (ucast v, (ucast v :: 16 word) = foldl (crc_byte False) 0
         ((''/ISK5'' @ [CR, LF] @ ''1-0:22.7.0(01.234*kW)'' @ [CR, LF]) @ [CHR ''!'']))))"
    by (rule check_crc_layout[OF b neg_power_length]) simp_all
  show ?thesis
    unfolding l by (simp only: c v f bnd_Inr) simp
qed

lemma neg_power_clear:
  "clear_buffer (buffer neg_power_meter) = Inr (replicate BUFFER_SIZE NUL @ [NUL])"
  by (simp add: clear_buffer_def neg_power_meter_def neg_power_telegram_def BUFFER_SIZE_def)

lemma neg_power_run:
  "ProcessTelegram False neg_power_meter = Inr (neg_power_reading, neg_power_processed)"
  by (simp add: ProcessTelegram_def neg_power_fields neg_power_crc neg_power_clear Let_def
      neg_power_reading_def neg_power_processed_def)

text \<open>
  C5. The claim: a line that begins with a per-phase produced-power code is decoded by
  the fixed-point rule into the per-phase produced-power field. The telegram here has
  a correct trailer and the line \<open>1-0:22.7.0(01.234*kW)\<close>, and it is decoded into a
  reading whose members are zero: the telegram is accepted (\<open>ValidCRC\<close>) and
  \<open>PowerProduced\<close> is still \<open>[0, 0, 0]\<close>, where the claim has 1234 for the first
  phase. The three branches that assign \<open>PowerProduced\<close> test the codes of
  \<open>PowerDelivered\<close> again, which the branches before them have taken. Lemma
  \<open>ProcessTelegram_PowerProduced\<close> is the general fact: no telegram changes the field.
\<close>

theorem produced_power_line_not_decoded:
  "ProcessTelegram False neg_power_meter = Inr (neg_power_reading, neg_power_processed) \<and>
   ValidCRC neg_power_reading \<and> PowerProduced neg_power_reading = [0, 0, 0]"
  by (simp add: neg_power_run) (simp add: neg_power_reading_def zero_data_def)

section \<open>The power failure log\<close>

text \<open>A telegram whose power failure log announces four entries and has them, and the
  object that holds it when the reception is complete.\<close>

definition log_line :: string where
  "log_line =
     ''1-0:99.97.0(4)(0-0:96.7.19)'' @
     ''(101208152415W)(0000000240*s)'' @ ''(101208151004W)(0000000301*s)'' @
     ''(101208151004W)(0000000302*s)'' @ ''(101208151004W)(0000000303*s)''"

definition log_telegram :: "char list" where
  "log_telegram = ''/ISK5'' @ [CR, LF] @ log_line @ [CR, LF] @ ''!B986'' @ [CR, LF]"

definition log_meter :: P1Meter where
  "log_meter =
     \<lparr>DataReady = True, buffer = log_telegram @ replicate 866 NUL, bufferIndex = 158,
      data = zero_data, ctsPin = 0xFF, ctsHigh = False, pins = []\<rparr>"

lemma log_length: "length (buffer log_meter) = BUFFER_SIZE + 1"
  by (simp add: log_meter_def log_telegram_def log_line_def BUFFER_SIZE_def)

lemma log_window: "window (buffer log_meter) = buffer log_meter"
  by (simp add: window_id log_length)

lemma log_entries:
  assumes "PowerFailureLogs d = [zero_log, zero_log, zero_log]"
  shows "power_log (buffer log_meter) 7 d = Inl (LogBounds 3)"
  using assms
  by (simp add: power_log_def power_log_loop.simps run_buffer run_number Let_def
      log_meter_def log_telegram_def log_line_def zero_log_def
      cong: bnd_weak_cong)

lemma log_lines:
  assumes d: "PowerFailureLogs d = [zero_log, zero_log, zero_log]"
  shows "parse_lines (buffer log_meter) 158 6 d = Inl (LogBounds 3)"
proof -
  let ?b = "buffer log_meter"
  let ?d = d
  have 1: "parse_lines ?b 158 6 ?d =
           bnd (decode_line ?b (6 + 1) (6 + int (length (log_line @ [CR, LF]))) ?d)
             (\<lambda>d'. parse_lines ?b 158 (6 + int (length (log_line @ [CR, LF]))) d')"
    by (rule parse_lines_step[where pre = "''/ISK5'' @ [CR, LF]"
          and rest = "''!B986'' @ [CR, LF] @ replicate 866 NUL"])
       (simp_all add: log_window text_line_def BUFFER_SIZE_def log_line_def,
        simp add: log_meter_def log_telegram_def log_line_def)
  have 2: "decode_line ?b 7 e ?d = power_log ?b 7 ?d" for e
    by (rule decode_line_power_log[where rest =
          "drop 11 log_line @ [CR, LF] @ ''!B986'' @ [CR, LF] @ replicate 866 NUL"],
        rule at_offset_append[where pre = "''/ISK5'' @ [CR, LF]"])
       (simp_all add: log_window u16_def BUFFER_SIZE_def,
        simp add: log_meter_def log_telegram_def log_line_def)
  show ?thesis
    by (simp only: 1) (simp add: 2 log_entries[OF d])
qed

lemma log_fields: "read_fields log_meter = Inl (LogBounds 3)"
proof -
  let ?b = "buffer log_meter"
  have 1: "lastIndexOf ?b (CHR ''-'') 0 = Inr 23"
    by (simp add: log_meter_def log_telegram_def log_line_def run_buffer cong: bnd_weak_cong)
  have 2: "indexOf ?b (CHR ''/'') 0 = Inr 0"
    by (simp add: log_meter_def log_telegram_def log_line_def run_buffer cong: bnd_weak_cong)
  have 3: "indexOf ?b LF 0 = Inr 6"
    by (simp add: log_meter_def log_telegram_def log_line_def run_buffer cong: bnd_weak_cong)
  have 4: "getSubString ?b 1 6 = Inr (''ISK5'' @ [CR])"
    by (simp add: log_meter_def log_telegram_def log_line_def run_buffer cong: bnd_weak_cong)
  have 5: "\<exists>p. at_offset ?b 24 = Inr p \<and> strtoul p 10 = Inr 0"
    by (simp add: log_meter_def log_telegram_def log_line_def run_buffer run_number
        cong: bnd_weak_cong)
  then obtain p where p: "at_offset ?b 24 = Inr p" "strtoul p 10 = Inr 0"
    by blast
  have bi: "bufferIndex log_meter = 158" "data log_meter = zero_data"
    by (simp_all add: log_meter_def)
  have "PowerFailureLogs (zero_data\<lparr>NumberOfMBusDevices := n, HeaderInfo := h\<rparr>) =
        [zero_log, zero_log, zero_log]" for n h
    by (simp add: zero_data_def)
  then show ?thesis
    by (simp add: read_fields_def 1 2 3 4 p bi log_lines)
qed

text \<open>
  C4. The claim: when the line of the power failure log announces more entries than
  the three that \<open>PowerFailureLogs\<close> holds, three entries are extracted and nothing is
  written beyond the list. The telegram here announces four entries and has them. The
  loop of the branch runs \<open>i\<close> up to the announced number with no test against the
  size of the array, and its fourth round writes \<open>PowerFailureLogs[3]\<close>: the call does
  not return a reading, it writes outside the array (the fault \<open>LogBounds 3\<close>, raised
  by the write of the time stamp of the entry of index 3).
\<close>

theorem power_log_written_beyond_capacity:
  "length (PowerFailureLogs (data log_meter)) = 3 \<and>
   ProcessTelegram False log_meter = Inl (LogBounds 3)"
  by (simp add: ProcessTelegram_def log_fields) (simp add: log_meter_def zero_data_def)

section \<open>The last byte of the buffer\<close>

text \<open>The library functions on a run of NULs that other bytes follow.\<close>

lemma replicate_tail_pos: "0 < n \<Longrightarrow> replicate n x @ ys = x # (replicate (n - 1) x @ ys)"
  by (cases n) simp_all

lemma strchr_from_zeros_tail:
  "0 < n \<Longrightarrow>
   strchr_from (replicate n NUL @ ys) c k = Inr (if c = NUL then Some k else None)"
  by (subst replicate_tail_pos) simp_all

lemma strrchr_from_zeros_tail:
  "0 < n \<Longrightarrow>
   strrchr_from (replicate n NUL @ ys) c k found = Inr (if c = NUL then Some k else found)"
  by (subst replicate_tail_pos) simp_all

lemma strncpy_src_zeros_tail:
  "0 < n \<Longrightarrow> strncpy_src (replicate n NUL @ ys) k = Inr (replicate k NUL)"
  by (cases k; subst replicate_tail_pos) simp_all

lemma c_string_zeros_tail: "0 < n \<Longrightarrow> c_string (replicate n NUL @ ys) = Inr []"
  by (subst replicate_tail_pos) simp_all

lemmas run_tail = strchr_from_zeros_tail strrchr_from_zeros_tail strncpy_src_zeros_tail
  c_string_zeros_tail

text \<open>The sample telegram in an object whose allocation has the byte \<open>x\<close> at index
  \<open>BUFFER_SIZE\<close>, where the constructor, which clears \<open>BUFFER_SIZE\<close> bytes, found it.\<close>

definition spare_meter :: P1Meter where
  "spare_meter =
     \<lparr>DataReady = True, buffer = tariff_telegram @ (replicate 983 NUL @ ''x''), bufferIndex = 40,
      data = zero_data, ctsPin = 0xFF, ctsHigh = False, pins = []\<rparr>"

lemma spare_window: "window (buffer spare_meter) = buffer spare_meter"
  by (simp add: window_id spare_meter_def tariff_telegram_def BUFFER_SIZE_def)

lemma spare_lines:
  "parse_lines (buffer spare_meter) 40 6 d = Inr (d\<lparr>DeliveredTariff1 := 1234567\<rparr>)"
proof -
  let ?b = "buffer spare_meter"
  have 1: "parse_lines ?b 40 6 d =
           bnd (decode_line ?b (6 + 1) (6 + int (length (''1-0:1.8.1(001234.567*kWh)'' @ [CR, LF]))) d)
             (\<lambda>d'. parse_lines ?b 40 (6 + int (length (''1-0:1.8.1(001234.567*kWh)'' @ [CR, LF]))) d')"
    by (rule parse_lines_step[where pre = "''/ISK5'' @ [CR, LF]" and rest = "''!216E'' @ [CR, LF] @ (replicate 983 NUL @ ''x'')"])
       (simp_all add: spare_window text_line_def BUFFER_SIZE_def, simp add: spare_meter_def tariff_telegram_def)
  have 2: "decode_line ?b 7 33 d = Inr (d\<lparr>DeliveredTariff1 := word_of_int (number_in 10 (''001234'' @ ''567''))\<rparr>)"
    by (rule tariff1_line[where pre = "''/ISK5'' @ [CR, LF]" and tail = "''*kWh)'' @ [CR, LF] @ ''!216E'' @ [CR, LF] @ (replicate 983 NUL @ ''x'')"])
       (simp_all add: spare_window digits_in_def digit_of_def BUFFER_SIZE_def, simp add: spare_meter_def tariff_telegram_def)
  have 3: "parse_lines ?b 40 33 d' =
           bnd (decode_line ?b (33 + 1) (33 + int (length (''!216E'' @ [CR, LF]))) d')
             (\<lambda>d''. parse_lines ?b 40 (33 + int (length (''!216E'' @ [CR, LF]))) d'')" for d'
    by (rule parse_lines_step[where pre = "''/ISK5'' @ [CR, LF] @ ''1-0:1.8.1(001234.567*kWh)'' @ [CR, LF]" and rest = "(replicate 983 NUL @ ''x'')"])
       (simp_all add: spare_window text_line_def BUFFER_SIZE_def, simp add: spare_meter_def tariff_telegram_def)
  have 4: "decode_line ?b 34 40 d' = Inr d'" for d'
  proof (rule decode_line_unmatched)
    show "at_offset ?b (u16 34) = Inr (''!216E'' @ [CR, LF] @ (replicate 983 NUL @ ''x''))"
      by (rule at_offset_append[where pre = "''/ISK5'' @ [CR, LF] @ ''1-0:1.8.1(001234.567*kWh)'' @ [CR, LF]"])
         (simp_all add: spare_window u16_def BUFFER_SIZE_def, simp add: spare_meter_def tariff_telegram_def)
    show "at_offset ?b (u16 (34 + 3)) = Inr (''6E'' @ [CR, LF] @ (replicate 983 NUL @ ''x''))"
      by (rule at_offset_append[where pre = "''/ISK5'' @ [CR, LF] @ ''1-0:1.8.1(001234.567*kWh)'' @ [CR, LF] @ ''!21''"])
         (simp_all add: spare_window u16_def BUFFER_SIZE_def, simp add: spare_meter_def tariff_telegram_def)
  qed (simp_all add: main_codes_def device_codes_def)
  have 5: "parse_lines ?b 40 40 d' = Inr d'" for d'
    by (rule parse_lines_stop) simp
  have n: "word_of_int (number_in 10 ''001234567'') = (1234567 :: 32 word)"
    by (simp add: number_in_def digit_of_def)
  show ?thesis
    using 1 2 3 4 5 by (simp add: n)
qed

lemma spare_length: "length (buffer spare_meter) = BUFFER_SIZE + 1"
  by (simp add: spare_meter_def tariff_telegram_def BUFFER_SIZE_def)

lemma spare_fields:
  "read_fields spare_meter =
   Inr (zero_data\<lparr>NumberOfMBusDevices := 0, HeaderInfo := ''ISK5'' @ [CR],
                  DeliveredTariff1 := 1234567\<rparr>)"
proof -
  let ?b = "buffer spare_meter"
  have 1: "lastIndexOf ?b (CHR ''-'') 0 = Inr 8"
    by (simp add: spare_meter_def tariff_telegram_def run_buffer run_tail cong: bnd_weak_cong)
  have 2: "indexOf ?b (CHR ''/'') 0 = Inr 0"
    by (simp add: spare_meter_def tariff_telegram_def run_buffer run_tail cong: bnd_weak_cong)
  have 3: "indexOf ?b LF 0 = Inr 6"
    by (simp add: spare_meter_def tariff_telegram_def run_buffer run_tail cong: bnd_weak_cong)
  have 4: "getSubString ?b 1 6 = Inr (''ISK5'' @ [CR])"
    by (simp add: spare_meter_def tariff_telegram_def run_buffer run_tail cong: bnd_weak_cong)
  have 5: "\<exists>p. at_offset ?b 9 = Inr p \<and> strtoul p 10 = Inr 0"
    by (simp add: spare_meter_def tariff_telegram_def run_buffer run_tail run_number
        cong: bnd_weak_cong)
  then obtain p where p: "at_offset ?b 9 = Inr p" "strtoul p 10 = Inr 0"
    by blast
  have bi: "bufferIndex spare_meter = 40" "data spare_meter = zero_data"
    by (simp_all add: spare_meter_def)
  show ?thesis
    by (simp add: read_fields_def 1 2 3 4 p bi spare_lines)
qed

lemma spare_crc: "check_crc False (buffer spare_meter) = Inr (0x216E, True)"
proof -
  have b: "buffer spare_meter =
           (''/ISK5'' @ [CR, LF] @ ''1-0:1.8.1(001234.567*kWh)'' @ [CR, LF]) @
           CHR ''!'' # (''216E'' @ [CR, LF] @ (replicate 983 NUL @ ''x''))"
    by (simp add: spare_meter_def tariff_telegram_def)
  have c: "strncpy_src (''216E'' @ [CR, LF] @ (replicate 983 NUL @ ''x'')) 4 = Inr ''216E''"
    by (simp add: strncpy_src_numeral)
  have v: "strtoul (''216E'' @ [NUL]) 16 = Inr 0x216E"
    by (simp add: run_number)
  have f: "foldl (crc_byte False) 0
             ((''/ISK5'' @ [CR, LF] @ ''1-0:1.8.1(001234.567*kWh)'' @ [CR, LF]) @ [CHR ''!''])
           = 0x216E"
    by (simp add: crc_byte_def crc_bits_8 crc_shift_def POLYNOMIAL_IBM_REVERSED_def
        widen_char_def)
  have l: "check_crc False (buffer spare_meter) =
     bnd (strncpy_src (''216E'' @ [CR, LF] @ (replicate 983 NUL @ ''x'')) 4) (\<lambda>copied.
     bnd (strtoul (copied @ [NUL]) 16) (\<lambda>v.
       Inr (ucast v, (ucast v :: 16 word) = foldl (crc_byte False) 0
         ((''/ISK5'' @ [CR, LF] @ ''1-0:1.8.1(001234.567*kWh)'' @ [CR, LF]) @ [CHR ''!'']))))"
    by (rule check_crc_layout[OF b spare_length]) simp_all
  show ?thesis
    unfolding l by (simp only: c v f bnd_Inr) simp
qed

lemma spare_clear:
  "clear_buffer (buffer spare_meter) = Inr (replicate BUFFER_SIZE NUL @ ''x'')"
  by (simp add: clear_buffer_def spare_meter_def tariff_telegram_def BUFFER_SIZE_def)

lemma spare_run:
  "ProcessTelegram False spare_meter =
   Inr (tariff_reading,
        spare_meter\<lparr>buffer := replicate BUFFER_SIZE NUL @ ''x'', DataReady := False,
                      data := tariff_reading\<rparr>)"
  by (simp add: ProcessTelegram_def spare_fields spare_crc spare_clear Let_def
      tariff_reading_def)

lemma spare_received:
  "ReceiveTelegram zero_below (P1Meter_serial (CHR ''x'') zero_data) tariff_telegram =
   Returned spare_meter []"
proof -
  let ?m0 = "P1Meter_serial (CHR ''x'') zero_data"
  let ?xs = "''ISK5'' @ [CR, LF] @ ''1-0:1.8.1(001234.567*kWh)'' @ [CR, LF] @ ''!216E'' @ [CR]"
  have "ReceiveTelegram zero_below ?m0 (CHR ''/'' # ?xs @ LF # []) =
        Returned (cts_release ((cts_assert ?m0)\<lparr>
                    bufferIndex := int (1 + length ?xs),
                    buffer := CHR ''/'' # ?xs @ LF # drop (2 + length ?xs) (buffer ?m0),
                    DataReady := True\<rparr>)) []"
  proof (rule ReceiveTelegram_complete)
    show "\<not> DataReady ?m0" by (simp add: P1Meter_serial_def)
    show "length (buffer ?m0) = BUFFER_SIZE + 1" by (simp add: P1Meter_serial_def)
    show "1 + length ?xs \<le> BUFFER_SIZE" by (simp add: BUFFER_SIZE_def)
    show "\<forall>j<length ?xs. behind zero_below (CHR ''/'' # ?xs) (1 + j) \<noteq> CHR ''!''"
    proof -
      have "behind zero_below ((''/ISK5'' @ [CR, LF] @ ''1-0:1.8.1(001234.567*kWh)'' @ [CR, LF]) @
               (''!216E'' @ [CR])) pos \<noteq> CHR ''!''"
        if "pos < 40" "0 < pos" for pos
        by (rule behind_clear) (use that in \<open>simp_all add: zero_below_def\<close>)
      then show ?thesis by simp
    qed
    show "behind zero_below (CHR ''/'' # ?xs @ [LF]) (1 + length ?xs) = CHR ''!''"
      by (simp add: behind_def)
  qed
  moreover have "cts_release ((cts_assert ?m0)\<lparr>
                    bufferIndex := int (1 + length ?xs),
                    buffer := CHR ''/'' # ?xs @ LF # drop (2 + length ?xs) (buffer ?m0),
                    DataReady := True\<rparr>) = spare_meter"
    by (simp add: cts_release_def cts_assert_def P1Meter_serial_def spare_meter_def
        tariff_telegram_def BUFFER_SIZE_def replicate_append_same)
  ultimately show ?thesis by (simp add: tariff_telegram_def)
qed

definition spare_processed :: P1Meter where
  "spare_processed =
     spare_meter\<lparr>buffer := replicate BUFFER_SIZE NUL @ ''x'', DataReady := False,
                  data := tariff_reading\<rparr>"

lemma spare_decoded:
  "ProcessTelegram False spare_meter = Inr (tariff_reading, spare_processed)"
  by (simp add: spare_run spare_processed_def)

text \<open>
  C10, as the claim states it, fails for the last byte of the buffer. The buffer is
  an allocation of \<open>BUFFER_SIZE + 1\<close> bytes, of which the constructor and
  \<open>ProcessTelegram\<close> clear \<open>BUFFER_SIZE\<close>. Here the constructor found the byte \<open>x\<close> at
  index \<open>BUFFER_SIZE\<close>; the sample telegram is received and decoded, and after
  \<open>ProcessTelegram\<close> has returned the buffer still has \<open>x\<close> there.
\<close>

theorem last_byte_of_buffer_not_cleared:
  "ReceiveTelegram zero_below (P1Meter_serial (CHR ''x'') zero_data) tariff_telegram =
     Returned spare_meter [] \<and>
   ProcessTelegram False spare_meter = Inr (tariff_reading, spare_processed) \<and>
   length (GetBuffer spare_processed) = BUFFER_SIZE + 1 \<and>
   GetBuffer spare_processed ! BUFFER_SIZE = CHR ''x''"
proof -
  have "length (GetBuffer spare_processed) = BUFFER_SIZE + 1"
    and "GetBuffer spare_processed ! BUFFER_SIZE = CHR ''x''"
    by (simp_all add: GetBuffer_def spare_processed_def nth_append)
  then show ?thesis
    by (intro conjI spare_received spare_decoded)
qed

section \<open>A zero byte before the terminator\<close>

text \<open>
  A telegram with a zero byte before its terminator: the header line \<open>/A\<close>, a zero
  byte, and the trailer \<open>!26D9\<close> with its line ending. \<open>0x26D9\<close> is the checksum of the
  six bytes from the start marker to the terminator. The object holds the telegram
  when the reception is complete.
\<close>

definition nul_telegram :: "char list" where
  "nul_telegram = ''/A'' @ [CR, LF, NUL] @ ''!26D9'' @ [CR, LF]"

definition nul_meter :: P1Meter where
  "nul_meter =
     \<lparr>DataReady = True, buffer = nul_telegram @ replicate 1013 NUL, bufferIndex = 11,
      data = zero_data, ctsPin = 0xFF, ctsHigh = False, pins = []\<rparr>"

lemma nul_length: "length (buffer nul_meter) = BUFFER_SIZE + 1"
  by (simp add: nul_meter_def nul_telegram_def BUFFER_SIZE_def)

lemma nul_window: "window (buffer nul_meter) = buffer nul_meter"
  by (simp add: window_id nul_length)

lemma nul_received:
  "ReceiveTelegram zero_below (P1Meter_serial NUL zero_data) nul_telegram =
   Returned nul_meter []"
proof -
  let ?m0 = "P1Meter_serial NUL zero_data"
  let ?xs = "''A'' @ [CR, LF, NUL] @ ''!26D9'' @ [CR]"
  have "ReceiveTelegram zero_below ?m0 (CHR ''/'' # ?xs @ LF # []) =
        Returned (cts_release ((cts_assert ?m0)\<lparr>
                    bufferIndex := int (1 + length ?xs),
                    buffer := CHR ''/'' # ?xs @ LF # drop (2 + length ?xs) (buffer ?m0),
                    DataReady := True\<rparr>)) []"
  proof (rule ReceiveTelegram_complete)
    show "\<not> DataReady ?m0" by (simp add: P1Meter_serial_def)
    show "length (buffer ?m0) = BUFFER_SIZE + 1" by (simp add: P1Meter_serial_def)
    show "1 + length ?xs \<le> BUFFER_SIZE" by (simp add: BUFFER_SIZE_def)
    show "\<forall>j<length ?xs. behind zero_below (CHR ''/'' # ?xs) (1 + j) \<noteq> CHR ''!''"
    proof -
      have "behind zero_below ((''/A'' @ [CR, LF, NUL]) @ (''!26D9'' @ [CR])) pos \<noteq> CHR ''!''"
        if "pos < 11" "0 < pos" for pos
        by (rule behind_clear) (use that in \<open>simp_all add: zero_below_def\<close>)
      then show ?thesis by simp
    qed
    show "behind zero_below (CHR ''/'' # ?xs @ [LF]) (1 + length ?xs) = CHR ''!''"
      by (simp add: behind_def)
  qed
  moreover have "cts_release ((cts_assert ?m0)\<lparr>
                    bufferIndex := int (1 + length ?xs),
                    buffer := CHR ''/'' # ?xs @ LF # drop (2 + length ?xs) (buffer ?m0),
                    DataReady := True\<rparr>) = nul_meter"
    by (simp add: cts_release_def cts_assert_def P1Meter_serial_def nul_meter_def
        nul_telegram_def BUFFER_SIZE_def replicate_append_same)
  ultimately show ?thesis by (simp add: nul_telegram_def)
qed

lemma nul_lines: "parse_lines (buffer nul_meter) 11 3 d = Inr d"
proof -
  let ?b = "buffer nul_meter"
  have 1: "parse_lines ?b 11 3 d =
           bnd (decode_line ?b (3 + 1) (3 + int (length ([NUL] @ ''!26D9'' @ [CR, LF]))) d)
             (\<lambda>d'. parse_lines ?b 11 (3 + int (length ([NUL] @ ''!26D9'' @ [CR, LF]))) d')"
    by (rule parse_lines_step[where pre = "''/A'' @ [CR, LF]"
          and rest = "replicate 1013 NUL"])
       (simp_all add: nul_window text_line_def BUFFER_SIZE_def,
        simp add: nul_meter_def nul_telegram_def)
  have 2: "decode_line ?b 4 11 d' = Inr d'" for d'
  proof (rule decode_line_unmatched)
    show "at_offset ?b (u16 4) = Inr ([NUL] @ ''!26D9'' @ [CR, LF] @ replicate 1013 NUL)"
      by (rule at_offset_append[where pre = "''/A'' @ [CR, LF]"])
         (simp_all add: nul_window u16_def BUFFER_SIZE_def,
          simp add: nul_meter_def nul_telegram_def)
    show "at_offset ?b (u16 (4 + 3)) = Inr (''6D9'' @ [CR, LF] @ replicate 1013 NUL)"
      by (rule at_offset_append[where pre = "''/A'' @ [CR, LF, NUL] @ ''!2''"])
         (simp_all add: nul_window u16_def BUFFER_SIZE_def,
          simp add: nul_meter_def nul_telegram_def)
  qed (simp_all add: main_codes_def device_codes_def)
  have 3: "parse_lines ?b 11 11 d' = Inr d'" for d'
    by (rule parse_lines_stop) simp
  show ?thesis using 1 2 3 by simp
qed

lemma nul_fields:
  "read_fields nul_meter =
   Inr (zero_data\<lparr>NumberOfMBusDevices := 0, HeaderInfo := ''A'' @ [CR]\<rparr>)"
proof -
  let ?b = "buffer nul_meter"
  have 1: "lastIndexOf ?b (CHR ''-'') 0 = Inr (- 1)"
    by (simp add: nul_meter_def nul_telegram_def run_buffer cong: bnd_weak_cong)
  have 2: "indexOf ?b (CHR ''/'') 0 = Inr 0"
    by (simp add: nul_meter_def nul_telegram_def run_buffer cong: bnd_weak_cong)
  have 3: "indexOf ?b LF 0 = Inr 3"
    by (simp add: nul_meter_def nul_telegram_def run_buffer cong: bnd_weak_cong)
  have 4: "getSubString ?b 1 3 = Inr (''A'' @ [CR])"
    by (simp add: nul_meter_def nul_telegram_def run_buffer cong: bnd_weak_cong)
  have 5: "\<exists>p. at_offset ?b 0 = Inr p \<and> strtoul p 10 = Inr 0"
    by (simp add: nul_meter_def nul_telegram_def run_buffer run_number
        cong: bnd_weak_cong)
  then obtain p where p: "at_offset ?b 0 = Inr p" "strtoul p 10 = Inr 0"
    by blast
  have bi: "bufferIndex nul_meter = 11" "data nul_meter = zero_data"
    by (simp_all add: nul_meter_def)
  show ?thesis
    by (simp add: read_fields_def 1 2 3 4 p bi nul_lines)
qed

lemma nul_terminator: "indexOf (buffer nul_meter) (CHR ''!'') 0 = Inr (- 1)"
proof (rule indexOf_none)
  show "window (buffer nul_meter) =
        [] @ (''/A'' @ [CR, LF]) @ NUL # (''!26D9'' @ [CR, LF] @ replicate 1013 NUL)"
    by (simp add: nul_window) (simp add: nul_meter_def nul_telegram_def)
qed simp_all

lemma nul_checksum:
  "CRC16_IBM_REVERSED False (''/A'' @ [CR, LF, NUL] @ ''!'') 6 = Inr 0x26D9"
  by (subst CRC16_foldl)
     (simp_all add: crc_byte_def crc_bits_8 crc_shift_def POLYNOMIAL_IBM_REVERSED_def
        widen_char_def)

text \<open>
  C1. The claim: for every completed telegram buffer \<open>ValidCRC\<close> is the comparison of
  the checksum from the start marker to the terminator with the trailer, and \<open>CRC\<close>
  is the trailer. The port delivers the twelve bytes \<open>/A\<close>, the line ending, a zero
  byte and \<open>!26D9\<close> with its line ending, and \<open>ReceiveTelegram\<close> returns with the
  buffer complete. The checksum of the first six bytes is \<open>0x26D9\<close>, so the claim has
  a reading with \<open>CRC = 0x26D9\<close> and \<open>ValidCRC\<close>. The lines are consumed, and then
  \<open>strchr\<close> stops at the zero byte: \<open>indexOf('!', 0)\<close> is -1, which is not tested, and
  \<open>crcIndex\<close> is 65535. The checksum is taken over \<open>crcIndex + 1\<close> as an unsigned
  number of 16 bits, which is no byte at all, and is 0, and the trailer is read at
  \<open>buffer + 65536\<close>, outside the buffer: no reading with the checksum of the
  telegram is returned.
\<close>

theorem terminator_behind_zero_byte_not_found:
  "ReceiveTelegram zero_below (P1Meter_serial NUL zero_data) nul_telegram =
     Returned nul_meter [] \<and>
   take 12 (buffer nul_meter) = ''/A'' @ [CR, LF, NUL] @ ''!26D9'' @ [CR, LF] \<and>
   CRC16_IBM_REVERSED False (''/A'' @ [CR, LF, NUL] @ ''!'') 6 = Inr 0x26D9 \<and>
   read_fields nul_meter =
     Inr (zero_data\<lparr>NumberOfMBusDevices := 0, HeaderInfo := ''A'' @ [CR]\<rparr>) \<and>
   indexOf (buffer nul_meter) (CHR ''!'') 0 = Inr (- 1) \<and>
   u16 (- 1) = 65535 \<and>
   calcCRC16 False (buffer nul_meter) (65535 + 1) = Inr 0 \<and>
   at_offset (buffer nul_meter) (65535 + 1) = Inl BufferBounds \<and>
   check_crc False (buffer nul_meter) = Inl BufferBounds \<and>
   ProcessTelegram False nul_meter = Inl BufferBounds"
proof -
  have 1: "take 12 (buffer nul_meter) = ''/A'' @ [CR, LF, NUL] @ ''!26D9'' @ [CR, LF]"
    by (simp add: nul_meter_def nul_telegram_def)
  have 2: "u16 (- 1) = 65535" by (simp add: u16_def)
  have 3: "calcCRC16 False (buffer nul_meter) (65535 + 1) = Inr 0"
    by (simp add: calcCRC16_def u16_def CRC16_foldl)
  have 4: "at_offset (buffer nul_meter) (65535 + 1) = Inl BufferBounds"
    by (simp add: at_offset_def BUFFER_SIZE_def)
  have 5: "check_crc False (buffer nul_meter) = Inl BufferBounds"
    by (rule check_crc_lost, rule disjI1, rule nul_terminator)
  have 6: "ProcessTelegram False nul_meter = Inl BufferBounds"
    by (simp add: ProcessTelegram_def nul_fields 5)
  show ?thesis by (intro conjI nul_received 1 nul_checksum nul_fields nul_terminator 2 3 4 5 6)
qed

section \<open>A byte below the buffer\<close>

text \<open>
  The test \<open>buffer[bufferIndex - 6] == '!'\<close> is made from the first byte after the
  start marker on, with \<open>bufferIndex\<close> from 1 to 5 it reads the five bytes below the
  buffer, which are not a part of the allocation. Here the byte five positions
  below the buffer is \<open>!\<close> and the other bytes below it are zero.
\<close>

definition bang_below :: "nat \<Rightarrow> char" where
  "bang_below k = (if k = 5 then CHR ''!'' else NUL)"

definition early_meter :: P1Meter where
  "early_meter =
     \<lparr>DataReady = True, buffer = ''/I'' @ replicate 1023 NUL, bufferIndex = 1,
      data = zero_data, ctsPin = 0xFF, ctsHigh = False, pins = []\<rparr>"

lemma early_received:
  "ReceiveTelegram bang_below (P1Meter_serial NUL zero_data) (''/I'' @ unread) =
   Returned early_meter unread"
proof -
  let ?m0 = "P1Meter_serial NUL zero_data"
  have "ReceiveTelegram bang_below ?m0 (CHR ''/'' # [] @ CHR ''I'' # unread) =
        Returned (cts_release ((cts_assert ?m0)\<lparr>
                    bufferIndex := int (1 + length ([] :: char list)),
                    buffer := CHR ''/'' # [] @ CHR ''I'' #
                                drop (2 + length ([] :: char list)) (buffer ?m0),
                    DataReady := True\<rparr>)) unread"
  proof (rule ReceiveTelegram_complete)
    show "\<not> DataReady ?m0" by (simp add: P1Meter_serial_def)
    show "length (buffer ?m0) = BUFFER_SIZE + 1" by (simp add: P1Meter_serial_def)
    show "1 + length ([] :: char list) \<le> BUFFER_SIZE" by (simp add: BUFFER_SIZE_def)
    show "\<forall>j<length ([] :: char list). behind bang_below (CHR ''/'' # []) (1 + j) \<noteq> CHR ''!''"
      by simp
    show "behind bang_below (CHR ''/'' # [] @ [CHR ''I'']) (1 + length ([] :: char list)) =
          CHR ''!''"
      by (simp add: behind_def bang_below_def)
  qed
  moreover have "cts_release ((cts_assert ?m0)\<lparr>
                    bufferIndex := int (1 + length ([] :: char list)),
                    buffer := CHR ''/'' # [] @ CHR ''I'' #
                                drop (2 + length ([] :: char list)) (buffer ?m0),
                    DataReady := True\<rparr>) = early_meter"
    by (simp add: cts_release_def cts_assert_def P1Meter_serial_def early_meter_def
        BUFFER_SIZE_def replicate_append_same)
  ultimately show ?thesis by simp
qed

text \<open>
  C3. The claim: the object becomes ready exactly when the byte stored six positions
  behind the write position is \<open>!\<close>, so for a telegram that ends in \<open>!\<close>, four digits
  and the line ending, with the last byte of the line ending and not before. The port
  delivers the telegram of the tariff sample, in which the only \<open>!\<close> is the terminator
  at index 34. With zero bytes below the buffer the call returns with the last byte,
  at index 40. With \<open>!\<close> five positions below the buffer the call returns with the
  second byte, \<open>I\<close>, which is stored at index 1: the test reads \<open>buffer[-5]\<close>, the
  object is ready with a buffer that holds \<open>/I\<close> and no \<open>!\<close>, and the other 39 bytes
  of the telegram are still in the port.
\<close>

theorem completion_on_byte_below_buffer:
  "ReceiveTelegram zero_below (P1Meter_serial NUL zero_data) tariff_telegram =
     Returned tariff_meter [] \<and>
   ReceiveTelegram bang_below (P1Meter_serial NUL zero_data) tariff_telegram =
     Returned early_meter (drop 2 tariff_telegram) \<and>
   length (drop 2 tariff_telegram) = 39 \<and>
   DataReady early_meter \<and> bufferIndex early_meter = 1 \<and>
   CHR ''!'' \<notin> set (buffer early_meter) \<and>
   peek bang_below (buffer early_meter) (bufferIndex early_meter - 6) = Inr (bang_below 5) \<and>
   bang_below 5 = CHR ''!''"
proof -
  have 1: "ReceiveTelegram zero_below (P1Meter_serial NUL zero_data) tariff_telegram =
           Returned tariff_meter []"
    using tariff_received by (simp add: zero_below_def[abs_def])
  have t: "tariff_telegram = ''/I'' @ drop 2 tariff_telegram"
    by (simp add: tariff_telegram_def)
  have 2: "ReceiveTelegram bang_below (P1Meter_serial NUL zero_data) tariff_telegram =
           Returned early_meter (drop 2 tariff_telegram)"
    by (subst t) (rule early_received)
  have 3: "length (drop 2 tariff_telegram) = 39"
    by (simp add: tariff_telegram_def)
  have 4: "DataReady early_meter" "bufferIndex early_meter = 1"
    "CHR ''!'' \<notin> set (buffer early_meter)"
    by (simp_all add: early_meter_def)
  have 5: "peek bang_below (buffer early_meter) (bufferIndex early_meter - 6) =
           Inr (bang_below 5)"
    by (simp add: peek_def early_meter_def)
  have 6: "bang_below 5 = CHR ''!''" by (simp add: bang_below_def)
  show ?thesis by (intro conjI 1 2 3 4 5 6)
qed

section \<open>The produced power of the third phase\<close>

text \<open>A telegram with a line of the code \<open>1-0:62.7.0\<close>, the produced power of the
  third phase, with the value 12345 in the format of two and three digits, and the object that holds it when the reception is complete.\<close>

definition phase3_telegram :: "char list" where
  "phase3_telegram =
     ''/ISK5'' @ [CR, LF] @ ''1-0:62.7.0(12.345*kW)'' @ [CR, LF] @ ''!67B9'' @ [CR, LF]"

definition phase3_meter :: P1Meter where
  "phase3_meter =
     \<lparr>DataReady = True, buffer = phase3_telegram @ replicate 988 NUL, bufferIndex = 36,
      data = zero_data, ctsPin = 0xFF, ctsHigh = False, pins = []\<rparr>"

definition phase3_reading :: P1Data where
  "phase3_reading =
     zero_data\<lparr>NumberOfMBusDevices := 0, HeaderInfo := ''ISK5'' @ [CR],
               CRC := 0x67B9, ValidCRC := True\<rparr>"

definition phase3_processed :: P1Meter where
  "phase3_processed =
     phase3_meter\<lparr>buffer := replicate BUFFER_SIZE NUL @ [NUL], DataReady := False,
                      data := phase3_reading\<rparr>"

lemma phase3_length: "length (buffer phase3_meter) = BUFFER_SIZE + 1"
  by (simp add: phase3_meter_def phase3_telegram_def BUFFER_SIZE_def)

lemma phase3_window: "window (buffer phase3_meter) = buffer phase3_meter"
  by (simp add: window_id phase3_length)

lemma phase3_lines: "parse_lines (buffer phase3_meter) 36 6 d = Inr d"
proof -
  let ?b = "buffer phase3_meter"
  have 1: "parse_lines ?b 36 6 d =
           bnd (decode_line ?b (6 + 1) (6 + int (length (''1-0:62.7.0(12.345*kW)'' @ [CR, LF]))) d)
             (\<lambda>d'. parse_lines ?b 36 (6 + int (length (''1-0:62.7.0(12.345*kW)'' @ [CR, LF]))) d')"
    by (rule parse_lines_step[where pre = "''/ISK5'' @ [CR, LF]"
          and rest = "''!67B9'' @ [CR, LF] @ replicate 988 NUL"])
       (simp_all add: phase3_window text_line_def BUFFER_SIZE_def,
        simp add: phase3_meter_def phase3_telegram_def)
  have 2: "decode_line ?b 7 29 d' = Inr d'" for d'
  proof (rule decode_line_unmatched)
    show "at_offset ?b (u16 7) =
          Inr (''1-0:62.7.0(12.345*kW)'' @ [CR, LF] @ ''!67B9'' @ [CR, LF] @ replicate 988 NUL)"
      by (rule at_offset_append[where pre = "''/ISK5'' @ [CR, LF]"])
         (simp_all add: phase3_window u16_def BUFFER_SIZE_def,
          simp add: phase3_meter_def phase3_telegram_def)
    show "at_offset ?b (u16 (7 + 3)) =
          Inr ('':62.7.0(12.345*kW)'' @ [CR, LF] @ ''!67B9'' @ [CR, LF] @ replicate 988 NUL)"
      by (rule at_offset_append[where pre = "''/ISK5'' @ [CR, LF] @ ''1-0''"])
         (simp_all add: phase3_window u16_def BUFFER_SIZE_def,
          simp add: phase3_meter_def phase3_telegram_def)
  qed (simp_all add: main_codes_def device_codes_def)
  have 3: "parse_lines ?b 36 29 d' =
           bnd (decode_line ?b (29 + 1) (29 + int (length (''!67B9'' @ [CR, LF]))) d')
             (\<lambda>d''. parse_lines ?b 36 (29 + int (length (''!67B9'' @ [CR, LF]))) d'')" for d'
    by (rule parse_lines_step[where
          pre = "''/ISK5'' @ [CR, LF] @ ''1-0:62.7.0(12.345*kW)'' @ [CR, LF]"
          and rest = "replicate 988 NUL"])
       (simp_all add: phase3_window text_line_def BUFFER_SIZE_def,
        simp add: phase3_meter_def phase3_telegram_def)
  have 4: "decode_line ?b 30 36 d' = Inr d'" for d'
  proof (rule decode_line_unmatched)
    show "at_offset ?b (u16 30) = Inr (''!67B9'' @ [CR, LF] @ replicate 988 NUL)"
      by (rule at_offset_append[where
            pre = "''/ISK5'' @ [CR, LF] @ ''1-0:62.7.0(12.345*kW)'' @ [CR, LF]"])
         (simp_all add: phase3_window u16_def BUFFER_SIZE_def,
          simp add: phase3_meter_def phase3_telegram_def)
    show "at_offset ?b (u16 (30 + 3)) = Inr (''B9'' @ [CR, LF] @ replicate 988 NUL)"
      by (rule at_offset_append[where
            pre = "''/ISK5'' @ [CR, LF] @ ''1-0:62.7.0(12.345*kW)'' @ [CR, LF] @ ''!67''"])
         (simp_all add: phase3_window u16_def BUFFER_SIZE_def,
          simp add: phase3_meter_def phase3_telegram_def)
  qed (simp_all add: main_codes_def device_codes_def)
  have 5: "parse_lines ?b 36 36 d' = Inr d'" for d'
    by (rule parse_lines_stop) simp
  show ?thesis using 1 2 3 4 5 by simp
qed

lemma phase3_fields:
  "read_fields phase3_meter =
   Inr (zero_data\<lparr>NumberOfMBusDevices := 0, HeaderInfo := ''ISK5'' @ [CR]\<rparr>)"
proof -
  let ?b = "buffer phase3_meter"
  have 1: "lastIndexOf ?b (CHR ''-'') 0 = Inr 8"
    by (simp add: phase3_meter_def phase3_telegram_def run_buffer cong: bnd_weak_cong)
  have 2: "indexOf ?b (CHR ''/'') 0 = Inr 0"
    by (simp add: phase3_meter_def phase3_telegram_def run_buffer cong: bnd_weak_cong)
  have 3: "indexOf ?b LF 0 = Inr 6"
    by (simp add: phase3_meter_def phase3_telegram_def run_buffer cong: bnd_weak_cong)
  have 4: "getSubString ?b 1 6 = Inr (''ISK5'' @ [CR])"
    by (simp add: phase3_meter_def phase3_telegram_def run_buffer cong: bnd_weak_cong)
  have 5: "\<exists>p. at_offset ?b 9 = Inr p \<and> strtoul p 10 = Inr 0"
    by (simp add: phase3_meter_def phase3_telegram_def run_buffer run_number
        cong: bnd_weak_cong)
  then obtain p where p: "at_offset ?b 9 = Inr p" "strtoul p 10 = Inr 0"
    by blast
  have bi: "bufferIndex phase3_meter = 36" "data phase3_meter = zero_data"
    by (simp_all add: phase3_meter_def)
  show ?thesis
    by (simp add: read_fields_def 1 2 3 4 p bi phase3_lines)
qed

lemma phase3_crc: "check_crc False (buffer phase3_meter) = Inr (0x67B9, True)"
proof -
  have b: "buffer phase3_meter =
           (''/ISK5'' @ [CR, LF] @ ''1-0:62.7.0(12.345*kW)'' @ [CR, LF]) @
           CHR ''!'' # (''67B9'' @ [CR, LF] @ replicate 988 NUL)"
    by (simp add: phase3_meter_def phase3_telegram_def)
  have c: "strncpy_src (''67B9'' @ [CR, LF] @ replicate 988 NUL) 4 = Inr ''67B9''"
    by (simp add: strncpy_src_numeral)
  have v: "strtoul (''67B9'' @ [NUL]) 16 = Inr 0x67B9"
    by (simp add: run_number)
  have f: "foldl (crc_byte False) 0
             ((''/ISK5'' @ [CR, LF] @ ''1-0:62.7.0(12.345*kW)'' @ [CR, LF]) @ [CHR ''!''])
           = 0x67B9"
    by (simp add: crc_byte_def crc_bits_8 crc_shift_def POLYNOMIAL_IBM_REVERSED_def
        widen_char_def)
  have l: "check_crc False (buffer phase3_meter) =
     bnd (strncpy_src (''67B9'' @ [CR, LF] @ replicate 988 NUL) 4) (\<lambda>copied.
     bnd (strtoul (copied @ [NUL]) 16) (\<lambda>v.
       Inr (ucast v, (ucast v :: 16 word) = foldl (crc_byte False) 0
         ((''/ISK5'' @ [CR, LF] @ ''1-0:62.7.0(12.345*kW)'' @ [CR, LF]) @ [CHR ''!'']))))"
    by (rule check_crc_layout[OF b phase3_length]) simp_all
  show ?thesis
    unfolding l by (simp only: c v f bnd_Inr) simp
qed

lemma phase3_clear:
  "clear_buffer (buffer phase3_meter) = Inr (replicate BUFFER_SIZE NUL @ [NUL])"
  by (simp add: clear_buffer_def phase3_meter_def phase3_telegram_def BUFFER_SIZE_def)

lemma phase3_run:
  "ProcessTelegram False phase3_meter = Inr (phase3_reading, phase3_processed)"
  by (simp add: ProcessTelegram_def phase3_fields phase3_crc phase3_clear Let_def
      phase3_reading_def phase3_processed_def)

lemma render_phase3: "render_fixed 2 3 12345 = ''12.345''"
  by (simp add: render_fixed_def dec_digits_numeral)

text \<open>
  C9. The claim: a value that fits the width of a fixed-point field, written in the
  wire format of that field, is decoded to the same value. The produced power of a
  phase has two and three digits; here 12345 is written as \<open>12.345\<close> in the line of
  the third phase, \<open>1-0:62.7.0\<close>, of a telegram with a correct trailer. The telegram
  is decoded and accepted, and \<open>PowerProduced\<close> of the third phase is 0, not 12345:
  no branch of the chain tests the code \<open>OBIS_POWER_NEG_L3\<close>, so the line is skipped.
  For the fields that a branch does assign the round trip holds, see
  \<open>decode_line_round_trip\<close>.
\<close>

theorem produced_power_round_trip_lost:
  "buffer phase3_meter =
     ''/ISK5'' @ [CR, LF] @
     (OBIS_POWER_NEG_L3 @ ''('' @ render_fixed 2 3 12345 @ ''*kW)'' @ [CR, LF]) @
     ''!67B9'' @ [CR, LF] @ replicate 988 NUL \<and>
   ProcessTelegram False phase3_meter = Inr (phase3_reading, phase3_processed) \<and>
   ValidCRC phase3_reading \<and> PowerProduced phase3_reading ! 2 = 0"
proof -
  have 1: "buffer phase3_meter =
     ''/ISK5'' @ [CR, LF] @
     (OBIS_POWER_NEG_L3 @ ''('' @ render_fixed 2 3 12345 @ ''*kW)'' @ [CR, LF]) @
     ''!67B9'' @ [CR, LF] @ replicate 988 NUL"
    by (simp add: render_phase3 phase3_meter_def phase3_telegram_def)
  have 2: "ValidCRC phase3_reading" "PowerProduced phase3_reading ! 2 = 0"
    by (simp_all add: phase3_reading_def zero_data_def)
  show ?thesis by (intro conjI 1 2 phase3_run)
qed

end
